theory Spec2Isabelle
  imports Complex_Main "HOL-Library.Log_Nat"
begin

section \<open>Data model\<close>

text \<open>
  The program is the single file \<^verbatim>\<open>app1.py\<close>. Its core is
  \<^verbatim>\<open>calculate_sub_index\<close>, \<^verbatim>\<open>get_health_tip\<close>,
  \<^verbatim>\<open>get_date_features\<close> and \<^verbatim>\<open>predict_aqi\<close>.

  Modelling decisions, valid for the whole theory:
  \<^item> The keys of the list \<^verbatim>\<open>pollutants\<close> and of the dictionary
    \<^verbatim>\<open>breakpoints\<close> are the same seven strings; they are the constructors of
    the datatype \<open>pollutant\<close>, so a lookup \<^verbatim>\<open>breakpoints[pollutant]\<close> cannot miss.
  \<^item> A Python float is a binary64 number of IEEE 754. A finite float is modelled by the
    rational number it denotes, and every arithmetic operation on floats gives the exact
    result rounded to the nearest float, a tie going to the even mantissa
    (\<open>float_round\<close>). Comparisons are exact. NaN, the infinities and overflow are
    outside the model; the operations of the program stay far below the overflow bound.
  \<^item> A Python exception is a value \<open>Inl e\<close> of a sum type, a normal return is \<open>Inr v\<close>.
\<close>

datatype pollutant = PM25 | PM10 | NO2 | NH3 | SO2 | CO | O3

datatype py_error = ValueError | KeyError | ZeroDivisionError | IndexError | RuntimeError

text \<open>A row \<^verbatim>\<open>(low, high, index_low, index_high)\<close> of a breakpoint table.\<close>

type_synonym breakpoint = "rat \<times> rat \<times> int \<times> int"

definition pollutants :: "pollutant list" where
  "pollutants = [PM25, PM10, NO2, NH3, SO2, CO, O3]"

section \<open>Floating-point arithmetic\<close>

text \<open>
  Python's built-in \<^verbatim>\<open>round(x)\<close> with one argument: the nearest integer, a tie going
  to the even neighbour.
\<close>

definition py_round :: "rat \<Rightarrow> int" where
  "py_round x =
     (let f = \<lfloor>x\<rfloor>; d = x - of_int f
      in if d < 1/2 then f
         else if 1/2 < d then f + 1
         else if even f then f else f + 1)"

text \<open>
  The binary exponent of a positive rational \<open>x\<close>, the integer \<open>e\<close> with
  \<open>2 powi e \<le> x < 2 powi (e + 1)\<close>, computed from the number of bits of an integer.
\<close>

definition ilog2 :: "rat \<Rightarrow> int" where
  "ilog2 x = (if 1 \<le> x then bitlen \<lfloor>x\<rfloor> - 1 else - bitlen (\<lceil>1 / x\<rceil> - 1))"

text \<open>
  The exponent of the unit in the last place of the floats around \<open>x\<close>: a mantissa has
  53 bits, and the floats below \<open>2 powi (- 1022)\<close> are the multiples of
  \<open>2 powi (- 1074)\<close>.
\<close>

definition ulp_exp :: "rat \<Rightarrow> int" where
  "ulp_exp x = max (ilog2 \<bar>x\<bar> - 52) (- 1074)"

text \<open>The float nearest to a rational, a tie going to the even mantissa.\<close>

definition float_round :: "rat \<Rightarrow> rat" where
  "float_round x =
     (if x = 0 then 0
      else let u = 2 powi ulp_exp x in of_int (py_round (x / u)) * u)"

text \<open>
  The rationals that are floats: zero, and the multiples of the unit in the last place
  of their own binade, so that the mantissa is an integer of at most 53 bits. (The
  largest finite float is not modelled.)
\<close>

definition is_float :: "rat \<Rightarrow> bool" where
  "is_float x = (x = 0 \<or> (let m = x / 2 powi ulp_exp x in of_int \<lfloor>m\<rfloor> = m))"

text \<open>
  The four operations on floats. (The division of the program divides two integers or
  an integer by a float; Python rounds the exact quotient in both cases.)
\<close>

definition fadd :: "rat \<Rightarrow> rat \<Rightarrow> rat" where
  "fadd x y = float_round (x + y)"

definition fsub :: "rat \<Rightarrow> rat \<Rightarrow> rat" where
  "fsub x y = float_round (x - y)"

definition fmul :: "rat \<Rightarrow> rat \<Rightarrow> rat" where
  "fmul x y = float_round (x * y)"

definition fdiv :: "rat \<Rightarrow> rat \<Rightarrow> rat" where
  "fdiv x y = float_round (x / y)"

section \<open>The sub-index calculator\<close>

text \<open>
  The tables of lines 18 to 26. The bounds of six tables are integers. The bounds of the
  CO table are float literals: \<^verbatim>\<open>1.1\<close> denotes the float nearest to 11/10, and
  literals such as \<^verbatim>\<open>2.0\<close> denote integers, which are floats.
\<close>

fun breakpoints :: "pollutant \<Rightarrow> breakpoint list" where
  "breakpoints PM25 =
     [(0,30,0,50), (31,60,51,100), (61,90,101,200), (91,120,201,300), (121,250,301,400), (251,500,401,500)]"
| "breakpoints PM10 =
     [(0,50,0,50), (51,100,51,100), (101,250,101,200), (251,350,201,300), (351,430,301,400), (431,600,401,500)]"
| "breakpoints NO2 =
     [(0,40,0,50), (41,80,51,100), (81,180,101,200), (181,280,201,300), (281,400,301,400), (401,1000,401,500)]"
| "breakpoints NH3 =
     [(0,200,0,50), (201,400,51,100), (401,800,101,200), (801,1200,201,300), (1201,1800,301,400), (1801,2400,401,500)]"
| "breakpoints SO2 =
     [(0,40,0,50), (41,80,51,100), (81,380,101,200), (381,800,201,300), (801,1600,301,400), (1601,2000,401,500)]"
| "breakpoints CO =
     [(0,1,0,50), (float_round (11/10),2,51,100), (float_round (21/10),10,101,200),
      (float_round (101/10),17,201,300), (float_round (171/10),34,301,400),
      (float_round (341/10),50,401,500)]"
| "breakpoints O3 =
     [(0,50,0,50), (51,100,51,100), (101,168,101,200), (169,208,201,300), (209,748,301,400), (749,1000,401,500)]"

text \<open>
  The expression of line 30, for one row and one value:
  \<^verbatim>\<open>((index_high - index_low)/(high - low)) * (value - low) + index_low\<close>, each
  operation in floating point.
\<close>

definition interpolate :: "breakpoint \<Rightarrow> rat \<Rightarrow> rat" where
  "interpolate bp v =
     (case bp of (low, high, index_low, index_high) \<Rightarrow>
        fadd (fmul (fdiv (of_int (index_high - index_low)) (fsub high low)) (fsub v low))
          (of_int index_low))"

text \<open>The test \<^verbatim>\<open>low <= value <= high\<close> of line 29.\<close>

definition in_range :: "breakpoint \<Rightarrow> rat \<Rightarrow> bool" where
  "in_range bp v = (case bp of (low, high, index_low, index_high) \<Rightarrow> low \<le> v \<and> v \<le> high)"

text \<open>
  The loop of lines 27 to 31: the first row whose range holds the value decides; the
  quotient \<^verbatim>\<open>(index_high - index_low)/(high - low)\<close> raises
  \<^verbatim>\<open>ZeroDivisionError\<close> on a row whose \<^verbatim>\<open>high - low\<close> is zero; a value in no
  range gives 0.
\<close>

fun sub_index_loop :: "breakpoint list \<Rightarrow> rat \<Rightarrow> py_error + int" where
  "sub_index_loop [] v = Inr 0"
| "sub_index_loop ((low, high, index_low, index_high) # bps) v =
     (if low \<le> v \<and> v \<le> high then
        (if fsub high low = 0 then Inl ZeroDivisionError
         else Inr (py_round
                (fadd (fmul (fdiv (of_int (index_high - index_low)) (fsub high low)) (fsub v low))
                   (of_int index_low))))
      else sub_index_loop bps v)"

definition calculate_sub_index :: "pollutant \<Rightarrow> rat \<Rightarrow> py_error + int" where
  "calculate_sub_index p v = sub_index_loop (breakpoints p) v"

text \<open>The largest tabulated concentration of a pollutant: the \<open>high\<close> of its last row.\<close>

definition table_max :: "pollutant \<Rightarrow> rat" where
  "table_max p = fst (snd (last (breakpoints p)))"

text \<open>The four components of a row.\<close>

definition bp_low :: "breakpoint \<Rightarrow> rat" where
  "bp_low bp = fst bp"

definition bp_high :: "breakpoint \<Rightarrow> rat" where
  "bp_high bp = fst (snd bp)"

definition bp_index_low :: "breakpoint \<Rightarrow> int" where
  "bp_index_low bp = fst (snd (snd bp))"

definition bp_index_high :: "breakpoint \<Rightarrow> int" where
  "bp_index_high bp = snd (snd (snd bp))"

text \<open>
  A table is well formed when every row has \<open>low < high\<close> with a difference that is
  not zero as a float, has \<open>0 \<le> index_low \<le> index_high\<close>, and is interpolated to
  \<open>index_low\<close> at \<open>low\<close> and to \<open>index_high\<close> at \<open>high\<close>; and when every row
  lies strictly below every later row, in concentration and in index.
\<close>

definition row_ok :: "breakpoint \<Rightarrow> bool" where
  "row_ok bp =
     (bp_low bp < bp_high bp \<and> fsub (bp_high bp) (bp_low bp) \<noteq> 0
      \<and> 0 \<le> bp_index_low bp \<and> bp_index_low bp \<le> bp_index_high bp
      \<and> py_round (interpolate bp (bp_low bp)) = bp_index_low bp
      \<and> py_round (interpolate bp (bp_high bp)) = bp_index_high bp)"

definition row_below :: "breakpoint \<Rightarrow> breakpoint \<Rightarrow> bool" where
  "row_below a b = (bp_high a < bp_low b \<and> bp_index_high a \<le> bp_index_low b)"

definition table_ok :: "breakpoint list \<Rightarrow> bool" where
  "table_ok bps = (list_all row_ok bps \<and> sorted_wrt row_below bps)"

text \<open>A concentration is covered when some row of the pollutant's table holds it.\<close>

definition covered :: "pollutant \<Rightarrow> rat \<Rightarrow> bool" where
  "covered p v = list_ex (\<lambda>bp. in_range bp v) (breakpoints p)"

section \<open>Category and health tip\<close>

text \<open>
  Lines 68 to 79 of \<^verbatim>\<open>predict_aqi\<close>: the ladder that turns the AQI into a category.
  The source has it inline; here it is a function of its own, which \<open>predict_aqi\<close> calls.
\<close>

definition category_of :: "int \<Rightarrow> string" where
  "category_of aqi =
     (if aqi \<le> 50 then ''Good''
      else if aqi \<le> 100 then ''Satisfactory''
      else if aqi \<le> 200 then ''Moderate''
      else if aqi \<le> 300 then ''Poor''
      else if aqi \<le> 400 then ''Very Poor''
      else ''Severe'')"

text \<open>The six category names, in the order of the ladder.\<close>

definition categories :: "string list" where
  "categories = [''Good'', ''Satisfactory'', ''Moderate'', ''Poor'', ''Very Poor'', ''Severe'']"

text \<open>
  \<^verbatim>\<open>get_health_tip\<close>, lines 33 to 45. Every message starts with one emoji; a
  \<open>string\<close> is a list of 8-bit characters, so the emoji is written as the four bytes of
  its UTF-8 encoding, followed by the ASCII text of the source.
\<close>

definition get_health_tip :: "int \<Rightarrow> string" where
  "get_health_tip aqi =
     (if aqi \<le> 50 then
        [CHR 0xF0, CHR 0x9F, CHR 0x8C, CHR 0xBF] @
        '' Good: Air quality is ideal. No precautions needed.''
      else if aqi \<le> 100 then
        [CHR 0xF0, CHR 0x9F, CHR 0x98, CHR 0x8A] @
        '' Satisfactory: Acceptable air quality. Sensitive individuals should avoid outdoor exertion.''
      else if aqi \<le> 200 then
        [CHR 0xF0, CHR 0x9F, CHR 0x98, CHR 0x90] @
        '' Moderate: Consider limiting prolonged outdoor exertion.''
      else if aqi \<le> 300 then
        [CHR 0xF0, CHR 0x9F, CHR 0x98, CHR 0xB7] @
        '' Poor: People with heart/lung disease, children and older adults should reduce prolonged outdoor exertion.''
      else if aqi \<le> 400 then
        [CHR 0xF0, CHR 0x9F, CHR 0x9A, CHR 0xAB] @
        '' Very Poor: Everyone should avoid outdoor physical activity.''
      else
        [CHR 0xF0, CHR 0x9F, CHR 0x9B, CHR 0x91] @
        '' Severe: Avoid all outdoor activity. Use air purifiers indoors.'')"

section \<open>Date features\<close>

text \<open>
  \<^verbatim>\<open>get_date_features\<close> calls \<^verbatim>\<open>datetime.strptime(date_str, "%d-%m-%Y")\<close> of the
  Python standard library. The library builds a regular expression from the format,
  \<^verbatim>\<open>(?P<d>3[0-1]|[1-2]\d|0[1-9]|[1-9]| [1-9])-(?P<m>1[0-2]|0[1-9]|[1-9])-(?P<Y>\d\d\d\d)\<close>,
  matches it at the start of the string, raises \<^verbatim>\<open>ValueError\<close> when nothing matches
  or when text remains after the match, converts the three groups with \<^verbatim>\<open>int\<close> and
  builds the date, which raises \<^verbatim>\<open>ValueError\<close> for a year, month or day out of range.

  A date string is a list of 8-bit characters: the Python strings whose code points are
  below 256. Among these the class \<^verbatim>\<open>\d\<close> holds exactly the digits 0 to 9.
\<close>

text \<open>A character class \<^verbatim>\<open>[lo-hi]\<close>: the characters whose code is between two bounds.\<close>

type_synonym char_class = "char \<times> char"

definition in_class :: "char_class \<Rightarrow> char \<Rightarrow> bool" where
  "in_class cl c =
     (case cl of (lo, hi) \<Rightarrow> (of_char lo :: nat) \<le> of_char c \<and> (of_char c :: nat) \<le> of_char hi)"

definition digit :: char_class where
  "digit = (CHR ''0'', CHR ''9'')"

definition only :: "char \<Rightarrow> char_class" where
  "only c = (c, c)"

text \<open>
  One alternative of a group is a sequence of classes, one per character. Matching it
  at the start of a string gives the matched text and the rest.
\<close>

fun match_classes :: "char_class list \<Rightarrow> string \<Rightarrow> (string \<times> string) option" where
  "match_classes [] s = Some ([], s)"
| "match_classes (cl # cls) [] = None"
| "match_classes (cl # cls) (c # s) =
     (if in_class cl c
      then (case match_classes cls s of None \<Rightarrow> None | Some (m, r) \<Rightarrow> Some (c # m, r))
      else None)"

text \<open>A group: the matches of its alternatives, in the order in which the engine tries them.\<close>

definition match_group :: "char_class list list \<Rightarrow> string \<Rightarrow> (string \<times> string) list" where
  "match_group alts s = List.map_filter (\<lambda>alt. match_classes alt s) alts"

definition day_alts :: "char_class list list" where
  "day_alts =
     [[only CHR ''3'', (CHR ''0'', CHR ''1'')], [(CHR ''1'', CHR ''2''), digit],
      [only CHR ''0'', (CHR ''1'', CHR ''9'')], [(CHR ''1'', CHR ''9'')],
      [only CHR '' '', (CHR ''1'', CHR ''9'')]]"

definition month_alts :: "char_class list list" where
  "month_alts =
     [[only CHR ''1'', (CHR ''0'', CHR ''2'')], [only CHR ''0'', (CHR ''1'', CHR ''9'')],
      [(CHR ''1'', CHR ''9'')]]"

definition year_alts :: "char_class list list" where
  "year_alts = [[digit, digit, digit, digit]]"

definition dash :: "char_class list list" where
  "dash = [[only CHR ''-'']]"

text \<open>
  The backtracking search of the engine: every way to match day, dash, month, dash and
  year in sequence, earlier alternatives first. The engine returns the first one.
\<close>

definition all_matches :: "string \<Rightarrow> (string \<times> string \<times> string \<times> string) list" where
  "all_matches s =
     [(d, m, y, r5).
        (d, r1) \<leftarrow> match_group day_alts s,
        (x, r2) \<leftarrow> match_group dash r1,
        (m, r3) \<leftarrow> match_group month_alts r2,
        (z, r4) \<leftarrow> match_group dash r3,
        (y, r5) \<leftarrow> match_group year_alts r4]"

definition regex_match :: "string \<Rightarrow> (string \<times> string \<times> string \<times> string) option" where
  "regex_match s = (case all_matches s of [] \<Rightarrow> None | x # xs \<Rightarrow> Some x)"

text \<open>
  \<^verbatim>\<open>int(text)\<close> on the texts a group can hold: blanks in front are skipped, and the
  rest must be a non-empty run of digits.
\<close>

definition py_int :: "string \<Rightarrow> py_error + int" where
  "py_int s =
     (let t = dropWhile (\<lambda>c. c = CHR '' '') s
      in if t \<noteq> [] \<and> list_all (in_class digit) t
         then Inr (foldl (\<lambda>n c. 10 * n + (int (of_char c) - 48)) 0 t)
         else Inl ValueError)"

text \<open>
  The calendar of \<^verbatim>\<open>datetime\<close>: \<^verbatim>\<open>_is_leap\<close>, \<^verbatim>\<open>_days_in_month\<close>,
  \<^verbatim>\<open>_days_before_year\<close>, \<^verbatim>\<open>_days_before_month\<close>, \<^verbatim>\<open>_ymd2ord\<close>,
  \<^verbatim>\<open>weekday\<close> and \<^verbatim>\<open>_check_date_fields\<close>. The two tables are indexed by the
  month, with a placeholder at index 0. Monday is day 0 of the week.
\<close>

definition is_leap :: "int \<Rightarrow> bool" where
  "is_leap year = (year mod 4 = 0 \<and> (year mod 100 \<noteq> 0 \<or> year mod 400 = 0))"

definition DAYS_IN_MONTH :: "int list" where
  "DAYS_IN_MONTH = [-1, 31, 28, 31, 30, 31, 30, 31, 31, 30, 31, 30, 31]"

definition DAYS_BEFORE_MONTH :: "int list" where
  "DAYS_BEFORE_MONTH = [-1, 0, 31, 59, 90, 120, 151, 181, 212, 243, 273, 304, 334]"

definition days_in_month :: "int \<Rightarrow> int \<Rightarrow> int" where
  "days_in_month year month =
     (if month = 2 \<and> is_leap year then 29 else DAYS_IN_MONTH ! nat month)"

definition days_before_year :: "int \<Rightarrow> int" where
  "days_before_year year = (let y = year - 1 in y * 365 + y div 4 - y div 100 + y div 400)"

definition days_before_month :: "int \<Rightarrow> int \<Rightarrow> int" where
  "days_before_month year month =
     DAYS_BEFORE_MONTH ! nat month + (if 2 < month \<and> is_leap year then 1 else 0)"

definition ymd2ord :: "int \<Rightarrow> int \<Rightarrow> int \<Rightarrow> int" where
  "ymd2ord year month day = days_before_year year + days_before_month year month + day"

definition weekday :: "int \<Rightarrow> int \<Rightarrow> int \<Rightarrow> int" where
  "weekday year month day = (ymd2ord year month day + 6) mod 7"

definition check_date_fields :: "int \<Rightarrow> int \<Rightarrow> int \<Rightarrow> py_error + (int \<times> int \<times> int)" where
  "check_date_fields year month day =
     (if \<not> (1 \<le> year \<and> year \<le> 9999) then Inl ValueError
      else if \<not> (1 \<le> month \<and> month \<le> 12) then Inl ValueError
      else if \<not> (1 \<le> day \<and> day \<le> days_in_month year month) then Inl ValueError
      else Inr (year, month, day))"

definition strptime :: "string \<Rightarrow> py_error + (int \<times> int \<times> int)" where
  "strptime data_string =
     (case regex_match data_string of
        None \<Rightarrow> Inl ValueError
      | Some (d, m, y, rest) \<Rightarrow>
          if rest \<noteq> [] then Inl ValueError
          else (case py_int y of Inl e \<Rightarrow> Inl e | Inr year \<Rightarrow>
               (case py_int m of Inl e \<Rightarrow> Inl e | Inr month \<Rightarrow>
               (case py_int d of Inl e \<Rightarrow> Inl e | Inr day \<Rightarrow>
                  check_date_fields year month day))))"

text \<open>The one-row data frame of lines 53 to 58.\<close>

record date_features =
  Year :: int
  Month :: int
  Day :: int
  DayOfWeek :: int

definition get_date_features :: "string \<Rightarrow> py_error + date_features" where
  "get_date_features date_str =
     (case strptime date_str of
        Inl e \<Rightarrow> Inl e
      | Inr (year, month, day) \<Rightarrow>
          Inr \<lparr>Year = year, Month = month, Day = day, DayOfWeek = weekday year month day\<rparr>)"

section \<open>The prediction\<close>

text \<open>
  The models are loaded from a file that is not part of the program: they are a parameter,
  a dictionary from pollutants to models. A model's \<^verbatim>\<open>predict(features)[0]\<close> returns
  a concentration or raises.
\<close>

type_synonym model = "date_features \<Rightarrow> py_error + rat"

text \<open>The loop of lines 64 and 65; a pollutant without a model raises \<^verbatim>\<open>KeyError\<close>.\<close>

fun predict_loop ::
  "(pollutant \<rightharpoonup> model) \<Rightarrow> date_features \<Rightarrow> pollutant list \<Rightarrow> py_error + (pollutant \<times> rat) list" where
  "predict_loop models features [] = Inr []"
| "predict_loop models features (p # ps) =
     (case models p of
        None \<Rightarrow> Inl KeyError
      | Some m \<Rightarrow>
          (case m features of
             Inl e \<Rightarrow> Inl e
           | Inr v \<Rightarrow>
               (case predict_loop models features ps of
                  Inl e \<Rightarrow> Inl e
                | Inr predicted \<Rightarrow> Inr ((p, v) # predicted))))"

text \<open>The dictionary comprehension of line 66, in the order of the keys.\<close>

fun sub_indices_of :: "(pollutant \<times> rat) list \<Rightarrow> py_error + (pollutant \<times> int) list" where
  "sub_indices_of [] = Inr []"
| "sub_indices_of ((p, v) # pvs) =
     (case calculate_sub_index p v of
        Inl e \<Rightarrow> Inl e
      | Inr i \<Rightarrow>
          (case sub_indices_of pvs of
             Inl e \<Rightarrow> Inl e
           | Inr sub_indices \<Rightarrow> Inr ((p, i) # sub_indices)))"

text \<open>The built-in \<^verbatim>\<open>max\<close> of a sequence of integers; it raises on an empty one.\<close>

fun py_max :: "int list \<Rightarrow> py_error + int" where
  "py_max [] = Inl ValueError"
| "py_max (x # xs) = Inr (foldl max x xs)"

definition predict_aqi ::
  "(pollutant \<rightharpoonup> model) \<Rightarrow> string \<Rightarrow>
     py_error + ((pollutant \<times> rat) list \<times> (pollutant \<times> int) list \<times> int \<times> string)" where
  "predict_aqi models input_date =
     (case get_date_features input_date of
        Inl e \<Rightarrow> Inl e
      | Inr features \<Rightarrow>
     (case predict_loop models features pollutants of
        Inl e \<Rightarrow> Inl e
      | Inr predicted \<Rightarrow>
     (case sub_indices_of predicted of
        Inl e \<Rightarrow> Inl e
      | Inr sub_indices \<Rightarrow>
     (case py_max (map snd sub_indices) of
        Inl e \<Rightarrow> Inl e
      | Inr aqi \<Rightarrow> Inr (predicted, sub_indices, aqi, category_of aqi)))))"

text \<open>
  Stub models for the examples: constant concentrations, each one a float (13/32 is
  0.40625), whose sub-indices are 40, 60, 150, 10, 5, 20 and 30; the same with a negative
  PM2.5; the same with an NO2 model that raises.
\<close>

definition stub_model :: "rat \<Rightarrow> model" where
  "stub_model v = (\<lambda>features. Inr v)"

definition raising_model :: "py_error \<Rightarrow> model" where
  "raising_model e = (\<lambda>features. Inl e)"

definition stub_models :: "pollutant \<rightharpoonup> model" where
  "stub_models =
     [PM25 \<mapsto> stub_model 24, PM10 \<mapsto> stub_model 60, NO2 \<mapsto> stub_model 130, NH3 \<mapsto> stub_model 40,
      SO2 \<mapsto> stub_model 4, CO \<mapsto> stub_model (13/32), O3 \<mapsto> stub_model 30]"

definition negative_models :: "pollutant \<rightharpoonup> model" where
  "negative_models = stub_models(PM25 \<mapsto> stub_model (-5))"

definition failing_models :: "pollutant \<rightharpoonup> model" where
  "failing_models = stub_models(NO2 \<mapsto> raising_model RuntimeError)"

section \<open>The date format and the calendar, as the specification words them\<close>

text \<open>
  The specification says that the extraction succeeds when the string matches the
  day-month-year format and denotes a possible calendar date. The definitions of this
  section state that condition directly, without the regular expression and the tables of
  the library; the theorem about \<open>get_date_features\<close> compares the two.

  The fields of a string: the texts between the separators, as
  \<^verbatim>\<open>str.split(sep)\<close> gives them.
\<close>

fun split_on :: "char \<Rightarrow> string \<Rightarrow> string list" where
  "split_on sep [] = [[]]"
| "split_on sep (c # s) =
     (if c = sep then [] # split_on sep s
      else (case split_on sep s of [] \<Rightarrow> [[c]] | f # fs \<Rightarrow> (c # f) # fs))"

definition is_digit :: "char \<Rightarrow> bool" where
  "is_digit c = (c \<in> set ''0123456789'')"

definition digit_value :: "char \<Rightarrow> int" where
  "digit_value c = int (of_char c) - int (of_char CHR ''0'')"

text \<open>The number that a text of decimal digits denotes; blanks do not count.\<close>

definition decimal :: "string \<Rightarrow> int" where
  "decimal ds = sum_list (map2 (\<lambda>c i. digit_value c * 10 ^ i) (rev ds) [0..<length ds])"

definition number :: "string \<Rightarrow> int" where
  "number t = decimal (filter (\<lambda>c. c \<noteq> CHR '' '') t)"

text \<open>
  The format \<^verbatim>\<open>%d-%m-%Y\<close>: a day of one or two digits, or of a blank and a digit;
  a month of one or two digits; a year of four digits.
\<close>

definition day_text :: "string \<Rightarrow> bool" where
  "day_text t =
     ((length t = 1 \<or> length t = 2) \<and> list_all is_digit t
      \<or> length t = 2 \<and> hd t = CHR '' '' \<and> is_digit (last t))"

definition month_text :: "string \<Rightarrow> bool" where
  "month_text t = ((length t = 1 \<or> length t = 2) \<and> list_all is_digit t)"

definition year_text :: "string \<Rightarrow> bool" where
  "year_text t = (length t = 4 \<and> list_all is_digit t)"

definition format_fields :: "string \<Rightarrow> (string \<times> string \<times> string) option" where
  "format_fields s =
     (case split_on CHR ''-'' s of
        [d, m, y] \<Rightarrow> if day_text d \<and> month_text m \<and> year_text y then Some (d, m, y) else None
      | _ \<Rightarrow> None)"

text \<open>
  A possible calendar date: a year from 1 to 9999 (the calendar has no year 0), a
  month from 1 to 12 and a day that the month has in that year.
\<close>

definition leap_year :: "int \<Rightarrow> bool" where
  "leap_year year = (4 dvd year \<and> (\<not> 100 dvd year \<or> 400 dvd year))"

definition month_length :: "int \<Rightarrow> int \<Rightarrow> int" where
  "month_length year month =
     (if month \<in> {4, 6, 9, 11} then 30
      else if month = 2 then (if leap_year year then 29 else 28)
      else 31)"

definition possible_date :: "int \<Rightarrow> int \<Rightarrow> int \<Rightarrow> bool" where
  "possible_date year month day =
     (1 \<le> year \<and> year \<le> 9999 \<and> 1 \<le> month \<and> month \<le> 12
      \<and> 1 \<le> day \<and> day \<le> month_length year month)"

text \<open>
  The day of the week by Zeller's congruence, in which January and February count as
  months 13 and 14 of the year before and \<open>h = 0\<close> is a Saturday; the result is
  shifted so that Monday is 0.
\<close>

definition day_of_week :: "int \<Rightarrow> int \<Rightarrow> int \<Rightarrow> int" where
  "day_of_week year month day =
     (let m = (if month < 3 then month + 12 else month);
          y = (if month < 3 then year - 1 else year);
          h = (day + (13 * (m + 1)) div 5 + y + y div 4 - y div 100 + y div 400) mod 7
      in (h + 5) mod 7)"

section \<open>Auxiliary notions of the proofs\<close>

text \<open>The code of a character; the texts a group matches; the leap years up to a year.\<close>

definition code :: "char \<Rightarrow> nat" where
  "code c = of_char c"

definition group_text :: "char_class list list \<Rightarrow> string \<Rightarrow> bool" where
  "group_text alts m = (\<exists>alt \<in> set alts. list_all2 in_class alt m)"

definition leap_days :: "int \<Rightarrow> int" where
  "leap_days z = z div 4 - z div 100 + z div 400"

section \<open>Properties of the sub-index calculator\<close>

subsection \<open>Rounding to an integer\<close>

lemma py_round_of_int: "py_round (of_int n) = n"
  by (simp add: py_round_def)

lemma py_round_mono: "x \<le> y \<Longrightarrow> py_round x \<le> py_round y"
proof -
  assume xy: "x \<le> y"
  have le: "\<lfloor>x\<rfloor> \<le> \<lfloor>y\<rfloor>" using xy by (rule floor_mono)
  have rx: "py_round x \<le> \<lfloor>x\<rfloor> + 1" by (simp add: py_round_def Let_def)
  have ry: "\<lfloor>y\<rfloor> \<le> py_round y" by (simp add: py_round_def Let_def)
  show ?thesis
  proof (cases "\<lfloor>x\<rfloor> < \<lfloor>y\<rfloor>")
    case True
    then show ?thesis using rx ry by linarith
  next
    case False
    then have eq: "\<lfloor>x\<rfloor> = \<lfloor>y\<rfloor>" using le by simp
    then show ?thesis using xy by (auto simp: py_round_def Let_def)
  qed
qed

lemma py_round_nearest_even:
  "\<bar>of_int (py_round x) - x\<bar> \<le> 1/2 \<and> (\<bar>of_int (py_round x) - x\<bar> = 1/2 \<longrightarrow> even (py_round x))"
proof -
  define f where "f = \<lfloor>x\<rfloor>"
  define d where "d = x - of_int f"
  have d: "0 \<le> d" "d < 1" unfolding d_def f_def by linarith+
  consider "d < 1/2" | "1/2 < d" | "d = 1/2" "even f" | "d = 1/2" "odd f" by fastforce
  then show ?thesis
  proof cases
    case 1
    then have r: "py_round x = f" by (simp add: py_round_def f_def d_def Let_def)
    have "of_int (py_round x) - x = - d" unfolding r by (simp add: d_def)
    then show ?thesis using 1 d by simp
  next
    case 2
    then have r: "py_round x = f + 1" by (simp add: py_round_def f_def d_def Let_def)
    have "of_int (py_round x) - x = 1 - d" unfolding r by (simp add: d_def)
    then show ?thesis using 2 d by simp
  next
    case 3
    then have r: "py_round x = f" by (simp add: py_round_def f_def d_def Let_def)
    have "of_int (py_round x) - x = - d" unfolding r by (simp add: d_def)
    then show ?thesis using 3 r by simp
  next
    case 4
    then have r: "py_round x = f + 1" by (simp add: py_round_def f_def d_def Let_def)
    have "of_int (py_round x) - x = 1 - d" unfolding r by (simp add: d_def)
    then show ?thesis using 4 r by simp
  qed
qed

text \<open>
  No integer is nearer than the rounded one; nearness and the rule for ties determine it;
  rounding commutes with negation.
\<close>

lemma py_round_nearest: "\<bar>of_int (py_round x) - x\<bar> \<le> \<bar>of_int j - x\<bar>"
proof (cases "j = py_round x")
  case True
  then show ?thesis by simp
next
  case False
  then have "1 \<le> \<bar>j - py_round x\<bar>" by simp
  then have "(1::rat) \<le> of_int \<bar>j - py_round x\<bar>" by (simp only: of_int_1_le_iff)
  then have "1 \<le> \<bar>(of_int j :: rat) - of_int (py_round x)\<bar>" by simp
  moreover have "\<bar>of_int (py_round x) - x\<bar> \<le> 1/2" using py_round_nearest_even[of x] by simp
  ultimately show ?thesis by linarith
qed

lemma py_round_tie:
  assumes "j \<noteq> py_round x" "\<bar>of_int j - x\<bar> = \<bar>of_int (py_round x) - x\<bar>"
  shows "even (py_round x)"
proof -
  from assms(1) have "1 \<le> \<bar>j - py_round x\<bar>" by simp
  then have "(1::rat) \<le> of_int \<bar>j - py_round x\<bar>" by (simp only: of_int_1_le_iff)
  then have "1 \<le> \<bar>(of_int j :: rat) - of_int (py_round x)\<bar>" by simp
  moreover have h: "\<bar>of_int (py_round x) - x\<bar> \<le> 1/2" using py_round_nearest_even[of x] by simp
  ultimately have "\<bar>of_int (py_round x) - x\<bar> = 1/2" using assms(2) by linarith
  then show ?thesis using py_round_nearest_even[of x] by simp
qed

lemma py_round_unique:
  assumes "\<bar>of_int i - x\<bar> \<le> 1/2" "\<bar>of_int i - x\<bar> = 1/2 \<longrightarrow> even i"
  shows "py_round x = i"
proof (rule ccontr)
  assume ne: "py_round x \<noteq> i"
  define k where "k = py_round x"
  have k: "\<bar>of_int k - x\<bar> \<le> 1/2" "\<bar>of_int k - x\<bar> = 1/2 \<longrightarrow> even k"
    using py_round_nearest_even[of x] by (simp_all add: k_def)
  from ne have "1 \<le> \<bar>i - k\<bar>" by (simp add: k_def)
  then have "(1::rat) \<le> of_int \<bar>i - k\<bar>" by (simp only: of_int_1_le_iff)
  then have one: "1 \<le> \<bar>(of_int i :: rat) - of_int k\<bar>" by simp
  then have a: "\<bar>of_int k - x\<bar> = 1/2" and b: "\<bar>of_int i - x\<bar> = 1/2"
    using assms(1) k(1) by linarith+
  then have ev: "even k" "even i" using k(2) assms(2) by simp_all
  have "\<bar>(of_int i :: rat) - of_int k\<bar> \<le> 1" using a b by linarith
  with one have "\<bar>(of_int i :: rat) - of_int k\<bar> = 1" by simp
  then have "of_int \<bar>i - k\<bar> = (1::rat)" by simp
  then have "\<bar>i - k\<bar> = 1" by (simp only: of_int_eq_1_iff)
  with ev show False by presburger
qed

lemma py_round_minus: "py_round (- x) = - py_round x"
proof (rule py_round_unique)
  have "\<bar>of_int (- py_round x) - - x\<bar> = \<bar>of_int (py_round x) - x\<bar>" by simp
  then show "\<bar>of_int (- py_round x) - - x\<bar> \<le> 1/2"
    and "\<bar>of_int (- py_round x) - - x\<bar> = 1/2 \<longrightarrow> even (- py_round x)"
    using py_round_nearest_even[of x] by simp_all
qed

subsection \<open>Rounding to a float\<close>

text \<open>The binary exponent brackets its argument, and rounding to a float is monotone on
  the non-negative rationals: within one binade it is the rounding of a mantissa, and a
  larger binade starts above every float of a smaller one.\<close>

lemma bitlen_pos: "0 < n \<Longrightarrow> 1 \<le> bitlen n"
  using bitlen_eq_zero_iff[of n] bitlen_nonneg[of n] by linarith

lemma ilog2_bounds:
  assumes "0 < x"
  shows "2 powi (ilog2 x) \<le> x" and "x < 2 powi (ilog2 x + 1)"
proof -
  have "2 powi (ilog2 x) \<le> x \<and> x < 2 powi (ilog2 x + 1)"
  proof (cases "1 \<le> x")
    case True
    define n where "n = \<lfloor>x\<rfloor>"
    define b where "b = bitlen n"
    have n: "1 \<le> n" using True by (simp add: n_def)
    then have b: "1 \<le> b" unfolding b_def by (intro bitlen_pos) simp
    have bb: "2 ^ nat (b - 1) \<le> n" "n < 2 ^ nat b"
      using bitlen_bounds[of n] n by (simp_all add: b_def)
    have L: "ilog2 x = b - 1" using True by (simp add: ilog2_def n_def b_def)
    have "(2::rat) powi (b - 1) = of_int (2 ^ nat (b - 1))"
      using b by (simp add: power_int_nonneg_exp)
    also have "\<dots> \<le> of_int n" using bb(1) by (simp only: of_int_le_iff)
    also have "\<dots> \<le> x" by (simp add: n_def)
    finally have 1: "2 powi (b - 1) \<le> x" .
    have "n + 1 \<le> 2 ^ nat b" using bb(2) by simp
    then have "(of_int (n + 1) :: rat) \<le> of_int (2 ^ nat b)" by (simp only: of_int_le_iff)
    moreover have "x < of_int (n + 1)" unfolding n_def by simp linarith
    moreover have "(of_int (2 ^ nat b) :: rat) = 2 powi b"
      using b by (simp add: power_int_nonneg_exp)
    ultimately have 2: "x < 2 powi b" by simp
    from 1 2 show ?thesis unfolding L by simp
  next
    case False
    define y where "y = 1 / x"
    define m where "m = \<lceil>y\<rceil> - 1"
    define b where "b = bitlen m"
    have x1: "x < 1" using False by simp
    have y: "1 < y" using assms x1 by (simp add: y_def)
    have xy: "x = 1 / y" by (simp add: y_def)
    have my: "of_int m < y" "y \<le> of_int m + 1"
      unfolding m_def using ceiling_correct[of y] by simp_all
    have "0 < (of_int m :: rat) + 1 - 1" using y my(2) by linarith
    then have m: "1 \<le> m" by simp
    then have b: "1 \<le> b" unfolding b_def by (intro bitlen_pos) simp
    have bb: "2 ^ nat (b - 1) \<le> m" "m < 2 ^ nat b"
      using bitlen_bounds[of m] m by (simp_all add: b_def)
    have L: "ilog2 x = - b" using False by (simp add: ilog2_def y_def m_def b_def)
    have "m + 1 \<le> 2 ^ nat b" using bb(2) by simp
    then have "(of_int (m + 1) :: rat) \<le> of_int (2 ^ nat b)" by (simp only: of_int_le_iff)
    moreover have "y \<le> of_int (m + 1)" using my(2) by simp
    moreover have "(of_int (2 ^ nat b) :: rat) = 2 ^ nat b" by simp
    ultimately have "y \<le> 2 ^ nat b" by linarith
    then have "1 / (2 ^ nat b) \<le> 1 / y" using y by (intro divide_left_mono) simp_all
    moreover have "(2::rat) powi (- b) = 1 / 2 ^ nat b"
      using b by (simp add: power_int_minus_divide power_int_nonneg_exp)
    ultimately have 1: "2 powi (- b) \<le> x" by (simp add: xy)
    have "(2::rat) ^ nat (b - 1) = of_int (2 ^ nat (b - 1))" by simp
    also have "\<dots> \<le> of_int m" using bb(1) by (simp only: of_int_le_iff)
    also have "\<dots> < y" by (rule my(1))
    finally have "2 ^ nat (b - 1) < y" .
    moreover have "0 < y" using y by simp
    ultimately have "1 / y < 1 / (2 ^ nat (b - 1))"
      by (intro divide_strict_left_mono) (simp_all add: zero_less_mult_iff)
    moreover have "(2::rat) powi (- b + 1) = 1 / 2 ^ nat (b - 1)"
    proof -
      have "- b + 1 = - (b - 1)" by simp
      then show ?thesis using b by (simp only: power_int_minus_divide) (simp add: power_int_nonneg_exp)
    qed
    ultimately have 2: "x < 2 powi (- b + 1)" by (simp add: xy)
    from 1 2 show ?thesis unfolding L by simp
  qed
  then show "2 powi (ilog2 x) \<le> x" and "x < 2 powi (ilog2 x + 1)" by simp_all
qed

lemma py_round_ge: "of_int k \<le> x \<Longrightarrow> k \<le> py_round x"
  using py_round_mono[of "of_int k" x] by (simp add: py_round_of_int)

lemma py_round_le: "x \<le> of_int k \<Longrightarrow> py_round x \<le> k"
  using py_round_mono[of x "of_int k"] by (simp add: py_round_of_int)

lemma float_round_0 [simp]: "float_round 0 = 0"
  by (simp add: float_round_def)

lemma float_round_pos_eq:
  "x \<noteq> 0 \<Longrightarrow> float_round x = of_int (py_round (x / 2 powi ulp_exp x)) * 2 powi ulp_exp x"
  by (simp add: float_round_def Let_def)

lemma float_round_nonneg: "0 \<le> x \<Longrightarrow> 0 \<le> float_round x"
proof (cases "x = 0")
  case True
  then show ?thesis by simp
next
  case False
  assume "0 \<le> x"
  then have "0 \<le> x / 2 powi ulp_exp x" by simp
  then have "0 \<le> py_round (x / 2 powi ulp_exp x)"
    using py_round_ge[of 0] by simp
  then show ?thesis using False by (simp add: float_round_pos_eq)
qed

lemma ilog2_mono:
  assumes "0 < x" "x \<le> y"
  shows "ilog2 x \<le> ilog2 y"
proof (rule ccontr)
  assume "\<not> ilog2 x \<le> ilog2 y"
  then have "ilog2 y + 1 \<le> ilog2 x" by simp
  then have "(2::rat) powi (ilog2 y + 1) \<le> 2 powi (ilog2 x)"
    by (intro power_int_increasing) simp_all
  also have "\<dots> \<le> x" using assms(1) by (rule ilog2_bounds)
  finally have "2 powi (ilog2 y + 1) \<le> y" using assms(2) by simp
  moreover have "y < 2 powi (ilog2 y + 1)" using assms by (intro ilog2_bounds) simp
  ultimately show False by simp
qed

lemma float_round_upper:
  assumes "0 < x"
  shows "float_round x \<le> 2 powi (ulp_exp x + 53)"
proof -
  define e where "e = ulp_exp x"
  define u :: rat where "u = 2 powi e"
  have u: "0 < u" by (simp add: u_def)
  have "ilog2 x - 52 \<le> e" using assms by (simp add: e_def ulp_exp_def)
  then have "ilog2 x + 1 \<le> e + 53" by simp
  then have "(2::rat) powi (ilog2 x + 1) \<le> 2 powi (e + 53)"
    by (intro power_int_increasing) simp_all
  then have "x \<le> 2 powi (e + 53)" using ilog2_bounds(2)[OF assms] by simp
  also have "\<dots> = of_int (2 ^ 53) * u" by (simp add: u_def power_int_add)
  finally have "x / u \<le> of_int (2 ^ 53)" using u by (simp add: field_simps)
  then have "py_round (x / u) \<le> 2 ^ 53" by (rule py_round_le)
  then have "(of_int (py_round (x / u)) :: rat) \<le> of_int (2 ^ 53)" by (simp only: of_int_le_iff)
  then have "of_int (py_round (x / u)) * u \<le> of_int (2 ^ 53) * u"
    using u by (intro mult_right_mono) simp_all
  also have "\<dots> = 2 powi (e + 53)" by (simp add: u_def power_int_add)
  finally show ?thesis using assms by (simp add: float_round_pos_eq e_def u_def)
qed

lemma float_round_lower:
  assumes "0 < x" "ulp_exp x = ilog2 x - 52"
  shows "2 powi (ilog2 x) \<le> float_round x"
proof -
  define e where "e = ulp_exp x"
  define u :: rat where "u = 2 powi e"
  have u: "0 < u" by (simp add: u_def)
  have L: "ilog2 x = e + 52" using assms(2) by (simp add: e_def)
  have p: "(2::rat) powi (ilog2 x) = of_int (2 ^ 52) * u"
    unfolding L by (simp add: u_def power_int_add)
  then have "of_int (2 ^ 52) * u \<le> x" using ilog2_bounds(1)[OF assms(1)] by simp
  then have "of_int (2 ^ 52) \<le> x / u" using u by (simp add: field_simps)
  then have "2 ^ 52 \<le> py_round (x / u)" by (rule py_round_ge)
  then have "(of_int (2 ^ 52) :: rat) \<le> of_int (py_round (x / u))" by (simp only: of_int_le_iff)
  then have "of_int (2 ^ 52) * u \<le> of_int (py_round (x / u)) * u"
    using u by (intro mult_right_mono) simp_all
  then show ?thesis using assms(1) unfolding p by (simp add: float_round_pos_eq e_def u_def)
qed

lemma float_round_mono:
  assumes "0 \<le> x" "x \<le> y"
  shows "float_round x \<le> float_round y"
proof (cases "x = 0")
  case True
  then show ?thesis using float_round_nonneg[of y] assms by simp
next
  case False
  then have x: "0 < x" and y: "0 < y" using assms by simp_all
  have ee: "ulp_exp x \<le> ulp_exp y"
    using ilog2_mono[OF x assms(2)] x y by (simp add: ulp_exp_def)
  show ?thesis
  proof (cases "ulp_exp x = ulp_exp y")
    case True
    define u :: rat where "u = 2 powi ulp_exp y"
    have u: "0 < u" by (simp add: u_def)
    have "x / u \<le> y / u" using assms(2) u by (simp add: divide_right_mono)
    then have "py_round (x / u) \<le> py_round (y / u)" by (rule py_round_mono)
    then have "(of_int (py_round (x / u)) :: rat) \<le> of_int (py_round (y / u))"
      by (simp only: of_int_le_iff)
    then have "of_int (py_round (x / u)) * u \<le> of_int (py_round (y / u)) * u"
      using u by (intro mult_right_mono) simp_all
    then show ?thesis using x y True by (simp add: float_round_pos_eq u_def)
  next
    case False
    then have lt: "ulp_exp x + 1 \<le> ulp_exp y" using ee by simp
    have "- 1074 \<le> ulp_exp x" by (simp add: ulp_exp_def)
    then have n: "ulp_exp y = ilog2 y - 52" using lt y by (simp add: ulp_exp_def max_def split: if_splits)
    have "float_round x \<le> 2 powi (ulp_exp x + 53)" using x by (rule float_round_upper)
    also have "\<dots> \<le> 2 powi (ilog2 y)"
      using lt n by (intro power_int_increasing) simp_all
    also have "\<dots> \<le> float_round y" using y n by (rule float_round_lower)
    finally show ?thesis .
  qed
qed

subsection \<open>The rounded value is the nearest float\<close>

text \<open>
  \<open>float_round\<close> is the rounding of IEEE 754 to the nearest float, a tie going to the
  even mantissa: its value is a float, no float is nearer to the argument, a float is
  rounded to itself, and when another float is as near, the value is an even multiple of
  the unit in the last place of the argument's binade.
\<close>

lemma is_float_iff: "is_float x \<longleftrightarrow> (\<exists>k::int. x = of_int k * 2 powi ulp_exp x)"
proof -
  define u :: rat where "u = 2 powi ulp_exp x"
  have u: "0 < u" by (simp add: u_def)
  show ?thesis
  proof
    assume f: "is_float x"
    show "\<exists>k::int. x = of_int k * 2 powi ulp_exp x"
    proof (cases "x = 0")
      case True
      then show ?thesis by (intro exI[of _ 0]) simp
    next
      case False
      with f have "of_int \<lfloor>x / u\<rfloor> = x / u" by (simp add: is_float_def Let_def u_def)
      then have "of_int \<lfloor>x / u\<rfloor> * u = x / u * u" by (simp only:)
      also have "x / u * u = x" using u by simp
      finally have "x = of_int \<lfloor>x / u\<rfloor> * u" by (rule sym)
      then show ?thesis unfolding u_def by blast
    qed
  next
    assume "\<exists>k::int. x = of_int k * 2 powi ulp_exp x"
    then obtain k :: int where "x = of_int k * u" unfolding u_def by blast
    then have "x / u = of_int k" using u by simp
    then have "of_int \<lfloor>x / u\<rfloor> = x / u" by simp
    then show "is_float x" by (simp add: is_float_def Let_def u_def)
  qed
qed

lemma ulp_exp_minus [simp]: "ulp_exp (- x) = ulp_exp x"
  by (simp add: ulp_exp_def)

lemma float_round_minus: "float_round (- x) = - float_round x"
  by (simp add: float_round_def Let_def py_round_minus)

lemma is_float_minus: "is_float (- x) \<longleftrightarrow> is_float x"
proof -
  have "(\<exists>k::int. - x = of_int k * 2 powi ulp_exp x) \<longleftrightarrow> (\<exists>k::int. x = of_int k * 2 powi ulp_exp x)"
  proof
    assume "\<exists>k::int. - x = of_int k * 2 powi ulp_exp x"
    then obtain k :: int where "- x = of_int k * 2 powi ulp_exp x" by blast
    then have "x = of_int (- k) * 2 powi ulp_exp x" by simp
    then show "\<exists>k::int. x = of_int k * 2 powi ulp_exp x" by blast
  next
    assume "\<exists>k::int. x = of_int k * 2 powi ulp_exp x"
    then obtain k :: int where "x = of_int k * 2 powi ulp_exp x" by blast
    then have "- x = of_int (- k) * 2 powi ulp_exp x" by simp
    then show "\<exists>k::int. - x = of_int k * 2 powi ulp_exp x" by blast
  qed
  then show ?thesis by (simp add: is_float_iff)
qed

lemma ulp_exp_ge: "- 1074 \<le> ulp_exp x"
  by (simp add: ulp_exp_def)

lemma ilog2_unique:
  assumes "0 < x" "2 powi k \<le> x" "x < 2 powi (k + 1)"
  shows "ilog2 x = k"
proof (rule ccontr)
  assume "ilog2 x \<noteq> k"
  then consider "ilog2 x + 1 \<le> k" | "k + 1 \<le> ilog2 x" by linarith
  then show False
  proof cases
    case 1
    then have "(2::rat) powi (ilog2 x + 1) \<le> 2 powi k" by (intro power_int_increasing) simp_all
    with ilog2_bounds(2)[OF assms(1)] assms(2) show False by simp
  next
    case 2
    then have "(2::rat) powi (k + 1) \<le> 2 powi (ilog2 x)" by (intro power_int_increasing) simp_all
    with ilog2_bounds(1)[OF assms(1)] assms(3) show False by simp
  qed
qed

lemma float_round_id: "is_float x \<Longrightarrow> float_round x = x"
proof (cases "x = 0")
  case True
  then show ?thesis by simp
next
  case False
  assume "is_float x"
  then obtain k :: int where k: "x = of_int k * 2 powi ulp_exp x" by (auto simp: is_float_iff)
  have "x / 2 powi ulp_exp x = of_int k" by (subst k) simp
  then show ?thesis using False k by (simp add: float_round_pos_eq py_round_of_int)
qed

lemma float_multiple:
  assumes "is_float d" "ulp_exp x \<le> ulp_exp d"
  shows "\<exists>j::int. d = of_int j * 2 powi ulp_exp x"
proof -
  from assms(1) obtain k :: int where k: "d = of_int k * 2 powi ulp_exp d"
    by (auto simp: is_float_iff)
  define n where "n = nat (ulp_exp d - ulp_exp x)"
  have "ulp_exp d = ulp_exp x + int n" using assms(2) by (simp add: n_def)
  then have "(2::rat) powi ulp_exp d = 2 powi ulp_exp x * 2 ^ n"
    by (simp add: power_int_add)
  with k have "d = of_int (k * 2 ^ n) * 2 powi ulp_exp x" by simp
  then show ?thesis by blast
qed

lemma float_round_nearest_multiple:
  assumes "x \<noteq> 0"
  shows "\<bar>float_round x - x\<bar> \<le> \<bar>of_int j * 2 powi ulp_exp x - x\<bar>"
proof -
  define u :: rat where "u = 2 powi ulp_exp x"
  have u: "0 < u" by (simp add: u_def)
  have sc: "\<bar>of_int i - x / u\<bar> * u = \<bar>of_int i * u - x\<bar>" for i :: int
  proof -
    have "\<bar>of_int i - x / u\<bar> * u = \<bar>of_int i - x / u\<bar> * \<bar>u\<bar>" using u by simp
    also have "\<dots> = \<bar>(of_int i - x / u) * u\<bar>" by (simp only: abs_mult)
    also have "(of_int i - x / u) * u = of_int i * u - x" using u by (simp add: field_simps)
    finally show ?thesis .
  qed
  have "\<bar>of_int (py_round (x / u)) - x / u\<bar> * u \<le> \<bar>of_int j - x / u\<bar> * u"
    using u py_round_nearest[of "x / u" j] by (intro mult_right_mono) simp_all
  then have "\<bar>of_int (py_round (x / u)) * u - x\<bar> \<le> \<bar>of_int j * u - x\<bar>"
    unfolding sc .
  then show ?thesis using assms by (simp add: float_round_pos_eq u_def)
qed

lemma float_round_nearer_than_small:
  assumes "is_float d" "x \<noteq> 0" "ulp_exp d < ulp_exp x"
  shows "\<bar>float_round x - x\<bar> < \<bar>d - x\<bar>"
proof -
  define L where "L = ilog2 \<bar>x\<bar>"
  have ax: "0 < \<bar>x\<bar>" using assms(2) by simp
  have "- 1074 < ulp_exp x" using assms(3) ulp_exp_ge[of d] by linarith
  then have e: "ulp_exp x = L - 52" by (simp add: ulp_exp_def L_def max_def split: if_splits)
  have dL: "\<bar>d\<bar> < 2 powi L"
  proof (cases "d = 0")
    case True
    then show ?thesis by simp
  next
    case False
    then have ad: "0 < \<bar>d\<bar>" by simp
    have "ilog2 \<bar>d\<bar> - 52 \<le> ulp_exp d" by (simp add: ulp_exp_def)
    then have "ilog2 \<bar>d\<bar> + 1 \<le> L" using assms(3) e by linarith
    then have "(2::rat) powi (ilog2 \<bar>d\<bar> + 1) \<le> 2 powi L" by (intro power_int_increasing) simp_all
    with ilog2_bounds(2)[OF ad] show ?thesis by simp
  qed
  have xL: "2 powi L \<le> \<bar>x\<bar>" unfolding L_def using ax by (rule ilog2_bounds)
  define j :: int where "j = (if 0 < x then 2 ^ 52 else - (2 ^ 52))"
  have p: "(2::rat) powi L = 2 ^ 52 * 2 powi ulp_exp x"
  proof -
    have "L = 52 + ulp_exp x" using e by simp
    then show ?thesis by (simp add: power_int_add)
  qed
  have c: "\<bar>of_int j * 2 powi ulp_exp x - x\<bar> = \<bar>x\<bar> - 2 powi L"
  proof (cases "0 < x")
    case True
    then have "of_int j * 2 powi ulp_exp x = (2::rat) powi L" by (simp add: j_def p)
    then show ?thesis using True xL by simp
  next
    case False
    then have "of_int j * 2 powi ulp_exp x = - ((2::rat) powi L)" by (simp add: j_def p)
    then show ?thesis using False xL by simp
  qed
  have "\<bar>float_round x - x\<bar> \<le> \<bar>x\<bar> - 2 powi L"
    using float_round_nearest_multiple[OF assms(2), of j] c by simp
  also have "\<dots> < \<bar>x\<bar> - \<bar>d\<bar>" using dL by simp
  also have "\<dots> \<le> \<bar>d - x\<bar>" by linarith
  finally show ?thesis .
qed

lemma float_round_nearest:
  assumes "is_float d"
  shows "\<bar>float_round x - x\<bar> \<le> \<bar>d - x\<bar>"
proof (cases "x = 0")
  case True
  then show ?thesis by simp
next
  case False
  show ?thesis
  proof (cases "ulp_exp x \<le> ulp_exp d")
    case True
    from float_multiple[OF assms True] obtain j :: int where "d = of_int j * 2 powi ulp_exp x" by blast
    then show ?thesis using float_round_nearest_multiple[OF False, of j] by simp
  next
    case False
    then show ?thesis using float_round_nearer_than_small[OF assms \<open>x \<noteq> 0\<close>] by simp
  qed
qed

lemma float_round_tie_even:
  assumes "is_float d" "d \<noteq> float_round x" "\<bar>d - x\<bar> = \<bar>float_round x - x\<bar>"
  shows "\<exists>k. float_round x = of_int k * 2 powi ulp_exp x \<and> even k"
proof -
  have nz: "x \<noteq> 0" using assms(2,3) by auto
  define u :: rat where "u = 2 powi ulp_exp x"
  have u: "0 < u" by (simp add: u_def)
  have "ulp_exp x \<le> ulp_exp d"
    using float_round_nearer_than_small[OF assms(1) nz] assms(3) by fastforce
  from float_multiple[OF assms(1) this] obtain j :: int where j: "d = of_int j * u"
    unfolding u_def by blast
  define k where "k = py_round (x / u)"
  have r: "float_round x = of_int k * u" using nz by (simp add: float_round_pos_eq k_def u_def)
  have jk: "j \<noteq> k" using assms(2) j r by auto
  have sc: "\<bar>of_int i - x / u\<bar> * u = \<bar>of_int i * u - x\<bar>" for i :: int
  proof -
    have "\<bar>of_int i - x / u\<bar> * u = \<bar>of_int i - x / u\<bar> * \<bar>u\<bar>" using u by simp
    also have "\<dots> = \<bar>(of_int i - x / u) * u\<bar>" by (simp only: abs_mult)
    also have "(of_int i - x / u) * u = of_int i * u - x" using u by (simp add: field_simps)
    finally show ?thesis .
  qed
  have "\<bar>of_int j - x / u\<bar> * u = \<bar>of_int k - x / u\<bar> * u"
    using assms(3) unfolding sc j r .
  then have "\<bar>of_int j - x / u\<bar> = \<bar>of_int k - x / u\<bar>" using u by simp
  then have "even k" using py_round_tie[of j "x / u"] jk by (simp add: k_def)
  with r show ?thesis unfolding u_def by blast
qed

lemma float_round_is_float_pos:
  assumes "0 < x"
  shows "is_float (float_round x)"
proof -
  define r where "r = float_round x"
  define e where "e = ulp_exp x"
  define k where "k = py_round (x / 2 powi e)"
  have rk: "r = of_int k * 2 powi e" using assms by (simp add: r_def k_def e_def float_round_pos_eq)
  have up: "r \<le> 2 powi (e + 53)" unfolding r_def e_def using assms by (rule float_round_upper)
  have r0: "0 \<le> r" unfolding r_def using assms by (intro float_round_nonneg) simp
  show ?thesis
  proof (cases "r = 0")
    case True
    then show ?thesis by (simp add: r_def is_float_def)
  next
    case False
    then have rpos: "0 < r" using r0 by simp
    have ge: "e \<le> ulp_exp r"
    proof (cases "e = - 1074")
      case True
      then show ?thesis using ulp_exp_ge[of r] by simp
    next
      case False
      then have n: "ulp_exp x = ilog2 x - 52"
        using assms by (simp add: e_def ulp_exp_def max_def split: if_splits)
      have "2 powi (ilog2 x) \<le> r" unfolding r_def using assms n by (rule float_round_lower)
      moreover have "(0::rat) < 2 powi (ilog2 x)" by simp
      ultimately have "ilog2 (2 powi (ilog2 x)) \<le> ilog2 r" by (intro ilog2_mono)
      moreover have "ilog2 (2 powi (ilog2 x)) = ilog2 x"
        by (intro ilog2_unique) (simp_all add: power_int_add)
      ultimately show ?thesis using n rpos by (simp add: e_def ulp_exp_def)
    qed
    show ?thesis
    proof (cases "ulp_exp r = e")
      case True
      then have "r = of_int k * 2 powi ulp_exp r" using rk by simp
      then show ?thesis unfolding r_def[symmetric] is_float_iff by blast
    next
      case False
      then have gt: "e + 1 \<le> ulp_exp r" using ge by simp
      have "- 1074 \<le> e" unfolding e_def by (rule ulp_exp_ge)
      then have n: "ulp_exp r = ilog2 r - 52"
        using gt rpos by (simp add: ulp_exp_def max_def split: if_splits)
      then have "e + 53 \<le> ilog2 r" using gt by simp
      then have "(2::rat) powi (e + 53) \<le> 2 powi (ilog2 r)" by (intro power_int_increasing) simp_all
      also have "\<dots> \<le> r" using rpos by (rule ilog2_bounds)
      finally have req: "r = 2 powi (e + 53)" using up by simp
      have "ilog2 r = e + 53"
        using rpos unfolding req by (intro ilog2_unique) (simp_all add: power_int_add)
      then have "ulp_exp r = e + 1" using n by simp
      moreover have "(2::rat) powi (e + 53) = of_int (2 ^ 52) * 2 powi (e + 1)"
      proof -
        define e' where "e' = e + 1"
        have "e + 53 = 52 + e'" by (simp add: e'_def)
        then have "(2::rat) powi (e + 53) = 2 powi (52 + e')" by (simp only:)
        also have "\<dots> = 2 powi 52 * 2 powi e'" by (rule power_int_add) simp
        also have "(2::rat) powi 52 = of_int (2 ^ 52)" by simp
        finally show ?thesis unfolding e'_def .
      qed
      ultimately have "r = of_int (2 ^ 52) * 2 powi ulp_exp r" using req by simp
      then show ?thesis unfolding r_def[symmetric] is_float_iff by blast
    qed
  qed
qed

lemma float_round_is_float: "is_float (float_round x)"
proof -
  consider "x = 0" | "0 < x" | "0 < - x" by linarith
  then show ?thesis
  proof cases
    case 1
    then show ?thesis by (simp add: is_float_def)
  next
    case 2
    then show ?thesis by (rule float_round_is_float_pos)
  next
    case 3
    then have "is_float (float_round (- x))" by (rule float_round_is_float_pos)
    then show ?thesis by (simp add: float_round_minus is_float_minus)
  qed
qed

subsection \<open>Evaluation of concrete floats\<close>

text \<open>Floors, ceilings and bit lengths of numerals, for the evaluation of the float
  operations at concrete values.\<close>

lemma floor_rat_numeral_div [simp]:
  "\<lfloor>numeral a / numeral b :: rat\<rfloor> = numeral a div numeral b"
  using floor_divide_of_int_eq[of "numeral a" "numeral b", where ?'a = rat] by simp

lemma floor_rat_one_div [simp]: "\<lfloor>1 / numeral b :: rat\<rfloor> = 1 div numeral b"
  using floor_divide_of_int_eq[of "1" "numeral b", where ?'a = rat] by simp

lemma bitlen_One [simp]: "bitlen 1 = 1"
  by (subst compute_bitlen) simp

lemma bitlen_numeral_One [simp]: "bitlen (numeral Num.One) = 1"
  by simp

lemma bitlen_Bit0 [simp]: "bitlen (numeral (Num.Bit0 n)) = bitlen (numeral n) + 1"
  by (subst compute_bitlen) simp

lemma bitlen_Bit1 [simp]: "bitlen (numeral (Num.Bit1 n)) = bitlen (numeral n) + 1"
  by (subst compute_bitlen) simp

lemma ceiling_rat_numeral_div [simp]:
  "\<lceil>numeral a / numeral b :: rat\<rceil> = - (- numeral a div numeral b)"
  using ceiling_divide_eq_div[of "numeral a" "numeral b", where ?'a = rat] by simp

lemma ceiling_rat_one_div [simp]: "\<lceil>1 / numeral b :: rat\<rceil> = - (- 1 div numeral b)"
  using ceiling_divide_eq_div[of "1" "numeral b", where ?'a = rat] by simp

text \<open>The definitions that evaluate a float operation, and the float literals of the CO table.\<close>

lemmas float_eval = fadd_def fsub_def fmul_def fdiv_def float_round_def ulp_exp_def ilog2_def
  py_round_def Let_def

lemma co_literals:
  "float_round (11/10) = 2476979795053773 / 2251799813685248"
  "float_round (21/10) = 4728779608739021 / 2251799813685248"
  "float_round (101/10) = 5685794529555251 / 562949953421312"
  "float_round (171/10) = 2406611050876109 / 140737488355328"
  "float_round (341/10) = 4799148352916685 / 140737488355328"
  by (simp_all add: float_eval)

text \<open>
  Some floats: the literal \<^verbatim>\<open>0.1\<close>, the sum \<^verbatim>\<open>0.1 + 0.2\<close>, which is not the
  float of 3/10, and the literal \<^verbatim>\<open>2.7\<close>.
\<close>

lemma float_examples:
  "float_round (1/10) = 3602879701896397 / 36028797018963968"
  "fadd (float_round (1/10)) (float_round (1/5)) = 1351079888211149 / 4503599627370496"
  "float_round (3/10) = 5404319552844595 / 18014398509481984"
  "float_round (27/10) = 3039929748475085 / 1125899906842624"
  "is_float (1/2)"
  by (simp_all add: float_eval is_float_def)

lemma tenth_not_float: "\<not> is_float (1/10)"
proof
  assume "is_float (1/10)"
  then have "float_round (1/10) = 1/10" by (rule float_round_id)
  then show False by (simp add: float_eval)
qed

subsection \<open>The seven tables are well formed\<close>

lemma interpolate_eq:
  "interpolate bp v =
     fadd (fmul (fdiv (of_int (bp_index_high bp - bp_index_low bp)) (fsub (bp_high bp) (bp_low bp)))
             (fsub v (bp_low bp)))
       (of_int (bp_index_low bp))"
  by (cases bp) (simp add: interpolate_def bp_low_def bp_high_def bp_index_low_def bp_index_high_def)

lemma interpolate_low: "interpolate bp (bp_low bp) = float_round (of_int (bp_index_low bp))"
  by (simp add: interpolate_eq fadd_def fmul_def fsub_def)

lemma row_ok_iff:
  "row_ok (low, high, il, ih) \<longleftrightarrow>
     low < high \<and> fsub high low \<noteq> 0 \<and> 0 \<le> il \<and> il \<le> ih
     \<and> py_round (float_round (of_int il)) = il
     \<and> py_round (fadd (fmul (fdiv (of_int (ih - il)) (fsub high low)) (fsub high low)) (of_int il)) = ih"
  unfolding row_ok_def interpolate_low
  by (simp add: interpolate_eq bp_low_def bp_high_def bp_index_low_def bp_index_high_def)

lemmas table_eval = table_ok_def row_ok_iff row_below_def bp_low_def bp_high_def
  bp_index_low_def bp_index_high_def

lemma table_ok_PM25: "table_ok (breakpoints PM25)"
  by (simp add: table_eval float_eval)

lemma table_ok_PM10: "table_ok (breakpoints PM10)"
  by (simp add: table_eval float_eval)

lemma table_ok_NO2: "table_ok (breakpoints NO2)"
  by (simp add: table_eval float_eval)

lemma table_ok_NH3: "table_ok (breakpoints NH3)"
  by (simp add: table_eval float_eval)

lemma table_ok_SO2: "table_ok (breakpoints SO2)"
  by (simp add: table_eval float_eval)

lemma table_ok_CO: "table_ok (breakpoints CO)"
  unfolding breakpoints.simps co_literals
  by (simp add: table_eval float_eval)

lemma table_ok_O3: "table_ok (breakpoints O3)"
  by (simp add: table_eval float_eval)

lemma breakpoints_ok: "table_ok (breakpoints p)"
  by (cases p)
     (simp_all only: table_ok_PM25 table_ok_PM10 table_ok_NO2 table_ok_NH3 table_ok_SO2
        table_ok_CO table_ok_O3)

subsection \<open>The loop on a well-formed table\<close>

lemma sub_index_loop_no_match:
  "list_all (\<lambda>bp. \<not> in_range bp v) bps \<Longrightarrow> sub_index_loop bps v = Inr 0"
  by (induction bps v rule: sub_index_loop.induct) (auto simp: in_range_def)

lemma in_range_iff: "in_range bp v \<longleftrightarrow> bp_low bp \<le> v \<and> v \<le> bp_high bp"
  by (cases bp) (simp add: in_range_def bp_low_def bp_high_def)

lemma sub_index_loop_Cons:
  "sub_index_loop (bp # bps) v =
     (if in_range bp v then
        (if fsub (bp_high bp) (bp_low bp) = 0 then Inl ZeroDivisionError
         else Inr (py_round (interpolate bp v)))
      else sub_index_loop bps v)"
  by (cases bp) (simp add: in_range_def interpolate_def bp_low_def bp_high_def)

lemma sub_index_loop_match:
  "table_ok bps \<Longrightarrow> bp \<in> set bps \<Longrightarrow> in_range bp v \<Longrightarrow>
     sub_index_loop bps v = Inr (py_round (interpolate bp v))"
proof (induction bps)
  case Nil
  then show ?case by simp
next
  case (Cons a bps)
  show ?case
  proof (cases "bp = a")
    case True
    moreover have "row_ok a" using Cons.prems(1) by (simp add: table_ok_def)
    ultimately show ?thesis using Cons.prems(3)
      by (simp add: sub_index_loop_Cons row_ok_def)
  next
    case False
    then have mem: "bp \<in> set bps" using Cons.prems(2) by simp
    have "row_below a bp" using Cons.prems(1) mem by (simp add: table_ok_def)
    then have "\<not> in_range a v" using Cons.prems(3)
      by (simp add: row_below_def in_range_iff)
    moreover have "table_ok bps" using Cons.prems(1) by (simp add: table_ok_def)
    ultimately show ?thesis using Cons.IH mem Cons.prems(3)
      by (simp add: sub_index_loop_Cons)
  qed
qed

lemma interpolate_mono:
  assumes "row_ok bp" "bp_low bp \<le> v" "v \<le> w"
  shows "interpolate bp v \<le> interpolate bp w"
proof -
  define k where
    "k = fdiv (of_int (bp_index_high bp - bp_index_low bp)) (fsub (bp_high bp) (bp_low bp))"
  have "0 \<le> fsub (bp_high bp) (bp_low bp)"
    unfolding fsub_def using assms(1) by (intro float_round_nonneg) (simp add: row_ok_def)
  moreover have "(0::rat) \<le> of_int (bp_index_high bp - bp_index_low bp)"
    using assms(1) by (simp add: row_ok_def)
  ultimately have k: "0 \<le> k"
    unfolding k_def fdiv_def by (intro float_round_nonneg) simp
  have a: "0 \<le> fsub v (bp_low bp)"
    unfolding fsub_def using assms(2) by (intro float_round_nonneg) simp
  have ab: "fsub v (bp_low bp) \<le> fsub w (bp_low bp)"
    unfolding fsub_def using assms(2,3) by (intro float_round_mono) simp_all
  have p: "0 \<le> k * fsub v (bp_low bp)" using k a by simp
  have "k * fsub v (bp_low bp) \<le> k * fsub w (bp_low bp)"
    using ab k by (rule mult_left_mono)
  with p have m: "fmul k (fsub v (bp_low bp)) \<le> fmul k (fsub w (bp_low bp))"
    and m0: "0 \<le> fmul k (fsub v (bp_low bp))"
    unfolding fmul_def by (simp_all add: float_round_mono float_round_nonneg)
  have "(0::rat) \<le> of_int (bp_index_low bp)" using assms(1) by (simp add: row_ok_def)
  with m m0 have "fadd (fmul k (fsub v (bp_low bp))) (of_int (bp_index_low bp))
      \<le> fadd (fmul k (fsub w (bp_low bp))) (of_int (bp_index_low bp))"
    unfolding fadd_def by (intro float_round_mono) simp_all
  then show ?thesis unfolding interpolate_eq k_def .
qed

lemma rows_ordered:
  "sorted_wrt row_below bps \<Longrightarrow> a \<in> set bps \<Longrightarrow> b \<in> set bps \<Longrightarrow> a = b \<or> row_below a b \<or> row_below b a"
  by (induction bps) auto

lemma table_mono:
  assumes ok: "table_ok bps" and a: "a \<in> set bps" "in_range a v" and b: "b \<in> set bps" "in_range b w"
    and vw: "v \<le> w"
  shows "py_round (interpolate a v) \<le> py_round (interpolate b w)"
proof -
  have ra: "row_ok a" and rb: "row_ok b" using ok a(1) b(1) by (auto simp: table_ok_def list_all_iff)
  consider "a = b" | "row_below a b" | "row_below b a"
    using rows_ordered[of bps a b] ok a(1) b(1) by (auto simp: table_ok_def)
  then show ?thesis
  proof cases
    case 1
    have "interpolate a v \<le> interpolate a w"
      using ra a(2) vw by (intro interpolate_mono) (simp_all add: in_range_iff)
    then show ?thesis using 1 by (simp add: py_round_mono)
  next
    case 2
    have "interpolate a v \<le> interpolate a (bp_high a)"
      using ra a(2) by (intro interpolate_mono) (simp_all add: in_range_iff)
    then have "py_round (interpolate a v) \<le> bp_index_high a"
      using py_round_mono[of "interpolate a v" "interpolate a (bp_high a)"] ra
      by (simp add: row_ok_def)
    also have "\<dots> \<le> bp_index_low b" using 2 by (simp add: row_below_def)
    also have "\<dots> \<le> py_round (interpolate b w)"
    proof -
      have "interpolate b (bp_low b) \<le> interpolate b w"
        using rb b(2) by (intro interpolate_mono) (simp_all add: in_range_iff)
      then show ?thesis
        using py_round_mono[of "interpolate b (bp_low b)" "interpolate b w"] rb
        by (simp add: row_ok_def)
    qed
    finally show ?thesis .
  next
    case 3
    then have "w < v" using a(2) b(2) by (simp add: row_below_def in_range_iff)
    then show ?thesis using vw by simp
  qed
qed

lemma calculate_sub_index_row:
  "bp \<in> set (breakpoints p) \<Longrightarrow> in_range bp v \<Longrightarrow>
     calculate_sub_index p v = Inr (py_round (interpolate bp v))"
  unfolding calculate_sub_index_def
  by (rule sub_index_loop_match[OF breakpoints_ok])

lemma table_max_last: "table_max p = bp_high (last (breakpoints p))"
  by (simp add: table_max_def bp_high_def)

lemma last_row_mem: "last (breakpoints p) \<in> set (breakpoints p)"
  by (cases p) simp_all

lemma last_row_index_high: "bp_index_high (last (breakpoints p)) = 500"
  by (cases p) (simp_all add: bp_index_high_def)

lemma row_high_in_range: "row_ok bp \<Longrightarrow> in_range bp (bp_high bp)"
  by (simp add: in_range_iff row_ok_def)

lemma row_ok_mem: "bp \<in> set (breakpoints p) \<Longrightarrow> row_ok bp"
  using breakpoints_ok[of p] by (simp add: table_ok_def list_all_iff)

lemma first_row_low: "bp \<in> set (breakpoints p) \<Longrightarrow> 0 \<le> bp_low bp"
  by (cases p) (auto simp: bp_low_def float_round_nonneg)

lemma rows_below_max: "bp \<in> set (breakpoints p) \<Longrightarrow> bp_high bp \<le> table_max p"
  by (cases p) (auto simp: bp_high_def table_max_def)

subsection \<open>The claims about the sub-index\<close>

text \<open>
  Claim C2. For every pollutant and every concentration \<open>v\<close> inside a row
  \<open>(low, high, index_low, index_high)\<close> of the pollutant's table, both ends included,
  \<open>calculate_sub_index\<close> returns the expression of line 30 for that row, computed in
  floating point and rounded to an integer: an integer nearest to the value of the
  expression, and the even one of the two when the value lies halfway.
\<close>

theorem calculate_sub_index_interpolates:
  "(low, high, index_low, index_high) \<in> set (breakpoints p) \<Longrightarrow> low \<le> v \<Longrightarrow> v \<le> high \<Longrightarrow>
     (let x = fadd (fmul (fdiv (of_int (index_high - index_low)) (fsub high low)) (fsub v low))
                (of_int index_low)
      in \<exists>i. calculate_sub_index p v = Inr i \<and> i = py_round x
            \<and> \<bar>of_int i - x\<bar> \<le> 1/2 \<and> (\<bar>of_int i - x\<bar> = 1/2 \<longrightarrow> even i))"
  using calculate_sub_index_row[of "(low, high, index_low, index_high)" p v]
    py_round_nearest_even[of "interpolate (low, high, index_low, index_high) v"]
  by (simp add: in_range_def interpolate_def Let_def)

text \<open>
  The theorem at PM2.5 = 45, in the row \<open>(31, 60, 51, 100)\<close>: the sub-index is 75. And
  values where floating point decides: PM2.5 at the float 2.7 gives 5 (the exact product
  would be 4.5, rounded to 4), NO2 at the float 0.4 gives 0, CO at the float 10.1, a row's
  lower bound, gives 201; the ties 2.5 and 3.5 for PM10 go to the even 2 and 4.
\<close>

theorem calculate_sub_index_interpolates_witness:
  "(31, 60, 51, 100) \<in> set (breakpoints PM25) \<and> (31::rat) \<le> 45 \<and> (45::rat) \<le> 60
     \<and> calculate_sub_index PM25 45 = Inr 75
     \<and> calculate_sub_index PM25 (float_round (27/10)) = Inr 5
     \<and> calculate_sub_index NO2 (float_round (2/5)) = Inr 0
     \<and> calculate_sub_index CO (float_round (101/10)) = Inr 201
     \<and> calculate_sub_index PM10 (5/2) = Inr 2
     \<and> calculate_sub_index PM10 (7/2) = Inr 4"
  using calculate_sub_index_interpolates[of 31 60 51 100 PM25 45]
  by (simp add: calculate_sub_index_def co_literals float_eval)

text \<open>
  Claim C9. At the upper boundary \<open>high\<close> of any row of a pollutant's table the
  sub-index is exactly the row's \<open>index_high\<close>; at the largest tabulated concentration
  it is 500.
\<close>

theorem calculate_sub_index_upper_boundary:
  "(\<forall>bp \<in> set (breakpoints p). calculate_sub_index p (bp_high bp) = Inr (bp_index_high bp))
     \<and> calculate_sub_index p (table_max p) = Inr 500"
proof -
  have row: "calculate_sub_index p (bp_high bp) = Inr (bp_index_high bp)"
    if "bp \<in> set (breakpoints p)" for bp
    using calculate_sub_index_row[OF that row_high_in_range[OF row_ok_mem[OF that]]]
      row_ok_mem[OF that]
    by (simp add: row_ok_def)
  from row[OF last_row_mem[of p]] have "calculate_sub_index p (table_max p) = Inr 500"
    by (simp add: table_max_last last_row_index_high)
  with row show ?thesis by blast
qed

text \<open>The theorem at PM2.5: 30 gives 50 and 500 gives 500.\<close>

theorem calculate_sub_index_upper_boundary_witness:
  "(0, 30, 0, 50) \<in> set (breakpoints PM25) \<and> calculate_sub_index PM25 30 = Inr 50
     \<and> table_max PM25 = 500 \<and> calculate_sub_index PM25 500 = Inr 500"
  using calculate_sub_index_upper_boundary[of PM25]
  by (simp add: bp_high_def bp_index_high_def table_max_def)

text \<open>
  Claim C6. A concentration that no row of the pollutant's table holds has sub-index 0;
  so has every negative concentration and every concentration above the largest
  tabulated one.
\<close>

theorem calculate_sub_index_out_of_range:
  "((\<forall>bp \<in> set (breakpoints p). \<not> in_range bp v) \<longrightarrow> calculate_sub_index p v = Inr 0)
     \<and> (v < 0 \<longrightarrow> calculate_sub_index p v = Inr 0)
     \<and> (table_max p < v \<longrightarrow> calculate_sub_index p v = Inr 0)"
proof -
  have none: "calculate_sub_index p v = Inr 0" if "\<forall>bp \<in> set (breakpoints p). \<not> in_range bp v"
    using that unfolding calculate_sub_index_def
    by (intro sub_index_loop_no_match) (simp add: list_all_iff)
  have neg: "\<forall>bp \<in> set (breakpoints p). \<not> in_range bp v" if "v < 0"
    using that first_row_low[of _ p] by (fastforce simp: in_range_iff)
  have above: "\<forall>bp \<in> set (breakpoints p). \<not> in_range bp v" if "table_max p < v"
    using that rows_below_max[of _ p] by (fastforce simp: in_range_iff)
  from none neg above show ?thesis by blast
qed

text \<open>The theorem at PM2.5 = 30.5 (between two rows), -1 and 501.\<close>

theorem calculate_sub_index_out_of_range_witness:
  "\<not> covered PM25 (61/2) \<and> calculate_sub_index PM25 (61/2) = Inr 0
     \<and> (-1::rat) < 0 \<and> calculate_sub_index PM25 (-1) = Inr 0
     \<and> table_max PM25 < 501 \<and> calculate_sub_index PM25 501 = Inr 0"
  using calculate_sub_index_out_of_range[of PM25 "61/2"]
    calculate_sub_index_out_of_range[of PM25 "-1"]
    calculate_sub_index_out_of_range[of PM25 501]
  by (simp add: covered_def in_range_def table_max_def)

text \<open>
  Claim C5 as stated fails: PM2.5 = 500 has sub-index 500 and the larger PM2.5 = 501,
  above the table, has sub-index 0 (the \<^verbatim>\<open>return 0\<close> of line 31).
\<close>

theorem calculate_sub_index_not_monotone:
  "(500::rat) \<le> 501 \<and> calculate_sub_index PM25 500 = Inr 500
     \<and> calculate_sub_index PM25 501 = Inr 0 \<and> (0::int) < 500"
  by (simp add: calculate_sub_index_def float_eval)

text \<open>
  Claim C5, amended. For every pollutant and all concentrations \<open>c1 \<le> c2\<close> that are both
  inside rows of the pollutant's table, the sub-index of \<open>c1\<close> is at most the sub-index
  of \<open>c2\<close>.
\<close>

theorem calculate_sub_index_monotone_covered:
  "c1 \<le> c2 \<Longrightarrow> covered p c1 \<Longrightarrow> covered p c2 \<Longrightarrow>
     \<exists>i1 i2. calculate_sub_index p c1 = Inr i1 \<and> calculate_sub_index p c2 = Inr i2 \<and> i1 \<le> i2"
proof -
  assume le: "c1 \<le> c2" and c1: "covered p c1" and c2: "covered p c2"
  from c1 obtain a where a: "a \<in> set (breakpoints p)" "in_range a c1"
    by (auto simp: covered_def list_ex_iff)
  from c2 obtain b where b: "b \<in> set (breakpoints p)" "in_range b c2"
    by (auto simp: covered_def list_ex_iff)
  have "py_round (interpolate a c1) \<le> py_round (interpolate b c2)"
    using table_mono[OF breakpoints_ok a b le] .
  then show ?thesis
    using calculate_sub_index_row[OF a] calculate_sub_index_row[OF b] by simp
qed

text \<open>The theorem at PM2.5 = 30 and 31: sub-indices 50 and 51.\<close>

theorem calculate_sub_index_monotone_covered_witness:
  "(30::rat) \<le> 31 \<and> covered PM25 30 \<and> covered PM25 31
     \<and> calculate_sub_index PM25 30 = Inr 50 \<and> calculate_sub_index PM25 31 = Inr 51 \<and> (50::int) \<le> 51"
  using calculate_sub_index_monotone_covered[of 30 31 PM25]
  by (simp add: covered_def in_range_def calculate_sub_index_def float_eval)

text \<open>
  Claim C4 fails on the code: PM2.5 = 30.5 lies between 0 and the largest tabulated
  concentration 500, and no row of the table holds it, because the first row ends at 30
  and the second starts at 31. The sub-index there is 0, below the 50 at 30 and the 51
  at 31.
\<close>

theorem calculate_sub_index_gap:
  "(0::rat) \<le> 61/2 \<and> 61/2 \<le> table_max PM25 \<and> \<not> covered PM25 (61/2)
     \<and> calculate_sub_index PM25 30 = Inr 50
     \<and> calculate_sub_index PM25 (61/2) = Inr 0
     \<and> calculate_sub_index PM25 31 = Inr 51"
  by (simp add: covered_def in_range_def table_max_def calculate_sub_index_def float_eval)

text \<open>What does hold of the tables: no concentration is inside two rows.\<close>

lemma breakpoints_disjoint:
  "a \<in> set (breakpoints p) \<Longrightarrow> b \<in> set (breakpoints p) \<Longrightarrow> in_range a v \<Longrightarrow> in_range b v \<Longrightarrow> a = b"
  using rows_ordered[of "breakpoints p" a b] breakpoints_ok[of p]
  by (auto simp: table_ok_def row_below_def in_range_iff)

section \<open>Properties of the category and the health tip\<close>

text \<open>
  Claim C3. The category is defined for every AQI and is one of six distinct names; each
  name belongs to exactly one interval, with the upper bound included: up to 50 Good,
  51 to 100 Satisfactory, 101 to 200 Moderate, 201 to 300 Poor, 301 to 400 Very Poor,
  above 400 Severe. In particular 50 is Good, 51 is Satisfactory and 500 is Severe.
\<close>

theorem category_of_partition:
  "(category_of aqi = ''Good'' \<longleftrightarrow> aqi \<le> 50)
   \<and> (category_of aqi = ''Satisfactory'' \<longleftrightarrow> 50 < aqi \<and> aqi \<le> 100)
   \<and> (category_of aqi = ''Moderate'' \<longleftrightarrow> 100 < aqi \<and> aqi \<le> 200)
   \<and> (category_of aqi = ''Poor'' \<longleftrightarrow> 200 < aqi \<and> aqi \<le> 300)
   \<and> (category_of aqi = ''Very Poor'' \<longleftrightarrow> 300 < aqi \<and> aqi \<le> 400)
   \<and> (category_of aqi = ''Severe'' \<longleftrightarrow> 400 < aqi)
   \<and> category_of aqi \<in> set categories \<and> distinct categories \<and> length categories = 6
   \<and> category_of 50 = ''Good'' \<and> category_of 51 = ''Satisfactory'' \<and> category_of 500 = ''Severe''"
  by (simp add: category_of_def categories_def)

text \<open>The theorem at the AQI values 0, 100, 101, 300, 400 and 401.\<close>

theorem category_of_partition_witness:
  "category_of 0 = ''Good'' \<and> category_of 100 = ''Satisfactory'' \<and> category_of 101 = ''Moderate''
   \<and> category_of 300 = ''Poor'' \<and> category_of 400 = ''Very Poor'' \<and> category_of 401 = ''Severe''"
  using category_of_partition[of 0] category_of_partition[of 100] category_of_partition[of 101]
    category_of_partition[of 300] category_of_partition[of 400] category_of_partition[of 401]
  by simp

text \<open>
  Claim C10. The health tip splits the AQI values into the same buckets as the category:
  two AQI values have the same tip exactly when they have the same category, and the text
  of the tip, after the emoji and the blank, starts with the name of the category and a
  colon.
\<close>

theorem get_health_tip_agrees:
  "(get_health_tip a = get_health_tip b \<longleftrightarrow> category_of a = category_of b)
   \<and> take (length (category_of a) + 1) (drop 5 (get_health_tip a)) = category_of a @ '':''"
  by (simp add: get_health_tip_def category_of_def)

text \<open>The theorem at the AQI values 0, 50 and 51.\<close>

theorem get_health_tip_agrees_witness:
  "get_health_tip 50 = get_health_tip 0 \<and> category_of 50 = category_of 0
   \<and> get_health_tip 50 \<noteq> get_health_tip 51 \<and> category_of 50 \<noteq> category_of 51
   \<and> take 13 (drop 5 (get_health_tip 51)) = ''Satisfactory:''"
  using get_health_tip_agrees[of 50 0] get_health_tip_agrees[of 50 51] get_health_tip_agrees[of 51 51]
  by (simp add: category_of_def get_health_tip_def)

section \<open>Properties of the date features\<close>

subsection \<open>The regular expression\<close>

text \<open>A group matches a prefix of the string whose characters are in the classes of one
  of its alternatives; the matches of the whole expression are the ways to cut the string
  into day, dash, month, dash, year and a rest.\<close>

lemma match_classes_sound:
  "match_classes cls s = Some (m, r) \<Longrightarrow> s = m @ r \<and> list_all2 in_class cls m"
  by (induction cls s arbitrary: m r rule: match_classes.induct)
     (auto split: option.splits if_splits)

lemma match_classes_complete:
  "list_all2 in_class cls m \<Longrightarrow> match_classes cls (m @ r) = Some (m, r)"
  by (induction cls arbitrary: m) (auto simp: list_all2_Cons1)

lemma match_classes_Some:
  "match_classes cls s = Some (m, r) \<longleftrightarrow> s = m @ r \<and> list_all2 in_class cls m"
  using match_classes_sound match_classes_complete by blast

lemma match_group_set:
  "(m, r) \<in> set (match_group alts s) \<longleftrightarrow> s = m @ r \<and> group_text alts m"
proof -
  have "set (List.map_filter f xs) = {y. \<exists>x \<in> set xs. f x = Some y}"
    for f :: "char_class list \<Rightarrow> (string \<times> string) option" and xs
    by (induction xs) (auto split: option.splits)
  then show ?thesis
    by (auto simp: match_group_def group_text_def match_classes_Some)
qed

lemma in_class_only: "in_class (only a) c \<longleftrightarrow> c = a"
proof -
  have "(of_char c :: nat) = of_char a \<longleftrightarrow> c = a" by (rule of_char_eq_iff)
  then show ?thesis by (auto simp: in_class_def only_def)
qed

lemma dash_text: "group_text dash x \<longleftrightarrow> x = ''-''"
  by (auto simp: group_text_def dash_def list_all2_Cons1 in_class_only)

lemma all_matches_set:
  "(d, m, y, r) \<in> set (all_matches s) \<longleftrightarrow>
     s = d @ ''-'' @ m @ ''-'' @ y @ r \<and> group_text day_alts d \<and> group_text month_alts m
     \<and> group_text year_alts y"
  unfolding all_matches_def
  apply (simp add: Bex_def match_group_set dash_text)
  apply (simp add: image_iff Bex_def match_group_set)
  done

subsection \<open>Characters by their codes\<close>

lemma code_eq_iff: "code a = code b \<longleftrightarrow> a = b"
  by (simp add: code_def)

lemma code_literals:
  "code CHR ''0'' = 48" "code CHR ''1'' = 49" "code CHR ''2'' = 50" "code CHR ''3'' = 51"
  "code CHR ''9'' = 57" "code CHR '' '' = 32" "code CHR ''-'' = 45"
  by (simp_all add: code_def)

lemma in_class_code: "in_class (lo, hi) c \<longleftrightarrow> code lo \<le> code c \<and> code c \<le> code hi"
  by (simp add: in_class_def code_def)

lemma is_digit_code: "is_digit c \<longleftrightarrow> 48 \<le> code c \<and> code c \<le> 57"
proof
  assume "is_digit c"
  then show "48 \<le> code c \<and> code c \<le> 57"
    by (auto simp: is_digit_def code_def)
next
  assume a: "48 \<le> code c \<and> code c \<le> 57"
  then have "code c \<in> {48, 49, 50, 51, 52, 53, 54, 55, 56, 57}" by simp presburger
  then have "code c \<in> code ` set ''0123456789''" by (simp add: code_def)
  then obtain d where "d \<in> set ''0123456789''" "code c = code d" by blast
  then show "is_digit c" by (simp add: code_eq_iff is_digit_def)
qed

lemma digit_value_code: "digit_value c = int (code c) - 48"
  by (simp add: digit_value_def code_def)

lemma blank_code: "c = CHR '' '' \<longleftrightarrow> code c = 32"
  using code_eq_iff[of c "CHR '' ''"] by (simp add: code_literals)

lemma literal_code:
  "c = CHR ''0'' \<longleftrightarrow> code c = 48" "c = CHR ''1'' \<longleftrightarrow> code c = 49"
  "c = CHR ''3'' \<longleftrightarrow> code c = 51" "c = CHR ''-'' \<longleftrightarrow> code c = 45"
  using code_eq_iff[of c "CHR ''0''"] code_eq_iff[of c "CHR ''1''"] code_eq_iff[of c "CHR ''3''"]
    code_eq_iff[of c "CHR ''-''"]
  by (simp_all add: code_literals)

lemmas class_simps = in_class_only in_class_code digit_def code_literals literal_code blank_code

subsection \<open>The texts of the groups\<close>

text \<open>The texts that the day, month and year groups match, and their relation to the
  texts and numbers of the format.\<close>

lemma day_group_shapes:
  "group_text day_alts d \<longleftrightarrow>
     (\<exists>a. d = [a] \<and> 49 \<le> code a \<and> code a \<le> 57)
     \<or> (\<exists>a b. d = [a, b] \<and>
           (code a = 51 \<and> 48 \<le> code b \<and> code b \<le> 49
            \<or> 49 \<le> code a \<and> code a \<le> 50 \<and> 48 \<le> code b \<and> code b \<le> 57
            \<or> code a = 48 \<and> 49 \<le> code b \<and> code b \<le> 57
            \<or> code a = 32 \<and> 49 \<le> code b \<and> code b \<le> 57))"
  unfolding group_text_def day_alts_def
  by (auto simp: list_all2_Cons1 class_simps)

lemma month_group_shapes:
  "group_text month_alts m \<longleftrightarrow>
     (\<exists>a. m = [a] \<and> 49 \<le> code a \<and> code a \<le> 57)
     \<or> (\<exists>a b. m = [a, b] \<and>
           (code a = 49 \<and> 48 \<le> code b \<and> code b \<le> 50
            \<or> code a = 48 \<and> 49 \<le> code b \<and> code b \<le> 57))"
  unfolding group_text_def month_alts_def
  by (auto simp: list_all2_Cons1 class_simps)

lemma year_group_shapes:
  "group_text year_alts y \<longleftrightarrow>
     (\<exists>a b c d. y = [a, b, c, d] \<and> 48 \<le> code a \<and> code a \<le> 57 \<and> 48 \<le> code b \<and> code b \<le> 57
        \<and> 48 \<le> code c \<and> code c \<le> 57 \<and> 48 \<le> code d \<and> code d \<le> 57)"
  unfolding group_text_def year_alts_def
  by (auto simp: list_all2_Cons1 class_simps)

lemma length_1_conv: "length xs = Suc 0 \<longleftrightarrow> (\<exists>a. xs = [a])"
  by (cases xs) auto

lemma length_2_conv: "length xs = 2 \<longleftrightarrow> (\<exists>a b. xs = [a, b])"
  by (cases xs; cases "tl xs") (auto simp: numeral_2_eq_2)

lemma length_4_conv: "length xs = 4 \<longleftrightarrow> (\<exists>a b c d. xs = [a, b, c, d])"
proof
  assume "length xs = 4"
  then obtain a ys where 1: "xs = a # ys" "length ys = 3" by (cases xs) auto
  then obtain b zs where 2: "ys = b # zs" "length zs = 2" by (cases ys) auto
  then obtain c d where "zs = [c, d]" by (auto simp: length_2_conv)
  with 1 2 show "\<exists>a b c d. xs = [a, b, c, d]" by blast
qed auto

lemma day_text_shapes:
  "day_text d \<longleftrightarrow>
     (\<exists>a. d = [a] \<and> 48 \<le> code a \<and> code a \<le> 57)
     \<or> (\<exists>a b. d = [a, b] \<and> (48 \<le> code a \<and> code a \<le> 57 \<or> code a = 32) \<and> 48 \<le> code b \<and> code b \<le> 57)"
  unfolding day_text_def by (auto simp: length_1_conv length_2_conv is_digit_code blank_code)

lemma month_text_shapes:
  "month_text m \<longleftrightarrow>
     (\<exists>a. m = [a] \<and> 48 \<le> code a \<and> code a \<le> 57)
     \<or> (\<exists>a b. m = [a, b] \<and> 48 \<le> code a \<and> code a \<le> 57 \<and> 48 \<le> code b \<and> code b \<le> 57)"
  unfolding month_text_def by (auto simp: length_1_conv length_2_conv is_digit_code)

lemma year_text_shapes:
  "year_text y \<longleftrightarrow>
     (\<exists>a b c d. y = [a, b, c, d] \<and> 48 \<le> code a \<and> code a \<le> 57 \<and> 48 \<le> code b \<and> code b \<le> 57
        \<and> 48 \<le> code c \<and> code c \<le> 57 \<and> 48 \<le> code d \<and> code d \<le> 57)"
  unfolding year_text_def by (auto simp: length_4_conv is_digit_code)

lemma number_1: "code a \<noteq> 32 \<Longrightarrow> number [a] = int (code a) - 48"
  by (simp add: number_def decimal_def digit_value_code blank_code)

lemma number_2:
  "code a \<noteq> 32 \<Longrightarrow> code b \<noteq> 32 \<Longrightarrow> number [a, b] = 10 * (int (code a) - 48) + (int (code b) - 48)"
  by (simp add: number_def decimal_def digit_value_code blank_code)

lemma number_blank: "code a = 32 \<Longrightarrow> code b \<noteq> 32 \<Longrightarrow> number [a, b] = int (code b) - 48"
  by (simp add: number_def decimal_def digit_value_code blank_code)

lemma number_4:
  "code a \<noteq> 32 \<Longrightarrow> code b \<noteq> 32 \<Longrightarrow> code c \<noteq> 32 \<Longrightarrow> code d \<noteq> 32 \<Longrightarrow>
     number [a, b, c, d] =
       1000 * (int (code a) - 48) + 100 * (int (code b) - 48) + 10 * (int (code c) - 48) + (int (code d) - 48)"
  by (simp add: number_def decimal_def digit_value_code blank_code)

lemma py_int_code:
  "py_int s =
     (let t = dropWhile (\<lambda>c. code c = 32) s
      in if t \<noteq> [] \<and> list_all (\<lambda>c. 48 \<le> code c \<and> code c \<le> 57) t
         then Inr (foldl (\<lambda>n c. 10 * n + (int (code c) - 48)) 0 t)
         else Inl ValueError)"
proof -
  have 1: "in_class digit = (\<lambda>c. 48 \<le> code c \<and> code c \<le> 57)"
    by (rule ext) (simp add: digit_def in_class_code code_literals)
  have 2: "(\<lambda>c. c = CHR '' '') = (\<lambda>c. code c = 32)"
    by (rule ext) (simp add: blank_code)
  show ?thesis unfolding py_int_def 1 2 by (simp add: code_def Let_def)
qed

lemma day_group_iff:
  "group_text day_alts d \<longleftrightarrow> day_text d \<and> 1 \<le> number d \<and> number d \<le> 31"
  unfolding day_group_shapes day_text_shapes
  by (auto simp: number_1 number_2 number_blank)

lemma month_group_iff:
  "group_text month_alts m \<longleftrightarrow> month_text m \<and> 1 \<le> number m \<and> number m \<le> 12"
  unfolding month_group_shapes month_text_shapes
  by (auto simp: number_1 number_2)

lemma year_group_iff: "group_text year_alts y \<longleftrightarrow> year_text y"
  unfolding year_group_shapes year_text_shapes ..

lemma py_int_day: "group_text day_alts d \<Longrightarrow> py_int d = Inr (number d)"
  unfolding day_group_shapes
  by (auto simp: py_int_code number_1 number_2 number_blank)

lemma py_int_month: "group_text month_alts m \<Longrightarrow> py_int m = Inr (number m)"
  unfolding month_group_shapes
  by (auto simp: py_int_code number_1 number_2)

lemma py_int_year:
  "group_text year_alts y \<Longrightarrow> py_int y = Inr (number y) \<and> 0 \<le> number y \<and> number y \<le> 9999"
  unfolding year_group_shapes
  by (auto simp: py_int_code number_4)

subsection \<open>The calendar\<close>

text \<open>The tables of the library give the month lengths of the calendar, and its day
  count from 1 January of year 1 gives the day of the week of Zeller's congruence.\<close>

lemma div_pred:
  fixes y k :: int
  assumes "0 < k"
  shows "y div k = (y - 1) div k + (if y mod k = 0 then 1 else 0)"
proof -
  define q where "q = y div k"
  define r where "r = y mod k"
  have y: "y = k * q + r" and r: "0 \<le> r" "r < k"
    using assms by (simp_all add: q_def r_def)
  show ?thesis
  proof (cases "r = 0")
    case True
    have "y - 1 = k * (q - 1) + (k - 1)" using y True by (simp add: algebra_simps)
    then have "(y - 1) div k = q - 1"
      using assms by (intro int_div_pos_eq[where r = "k - 1"]) simp_all
    then show ?thesis using True by (simp add: q_def r_def)
  next
    case False
    have "y - 1 = k * q + (r - 1)" using y by simp
    then have "(y - 1) div k = q"
      using r False by (intro int_div_pos_eq[where r = "r - 1"]) simp_all
    then show ?thesis using False by (simp add: q_def r_def)
  qed
qed

lemma month_cases:
  "1 \<le> (m::int) \<Longrightarrow> m \<le> 12 \<Longrightarrow>
     m = 1 \<or> m = 2 \<or> m = 3 \<or> m = 4 \<or> m = 5 \<or> m = 6 \<or> m = 7 \<or> m = 8 \<or> m = 9 \<or> m = 10 \<or> m = 11 \<or> m = 12"
  by arith

lemma is_leap_leap_year: "is_leap y = leap_year y"
  by (simp add: is_leap_def leap_year_def dvd_eq_mod_eq_0)

lemma days_in_month_length:
  assumes "1 \<le> m" "m \<le> 12"
  shows "days_in_month y m = month_length y m"
proof -
  have "days_in_month y k = month_length y k"
    if "k \<in> {1, 2, 3, 4, 5, 6, 7, 8, 9, 10, 11, 12}" for k
    using that
    by (auto simp: days_in_month_def month_length_def DAYS_IN_MONTH_def is_leap_leap_year)
  then show ?thesis using month_cases[OF assms] by blast
qed

lemma month_length_le: "month_length y m \<le> 31"
  by (simp add: month_length_def)

lemma check_date_fields_possible:
  "check_date_fields y m d = (if possible_date y m d then Inr (y, m, d) else Inl ValueError)"
proof (cases "1 \<le> m \<and> m \<le> 12")
  case True
  then show ?thesis
    using days_in_month_length[of m y] by (simp add: check_date_fields_def possible_date_def)
next
  case False
  then show ?thesis by (auto simp: check_date_fields_def possible_date_def)
qed

lemma leap_step: "leap_days y = leap_days (y - 1) + (if is_leap y then 1 else 0)"
proof -
  have a: "y mod 100 = 0" if "y mod 400 = 0"
  proof -
    have "(100::int) dvd 400" by simp
    moreover have "400 dvd y" using that by (simp add: mod_eq_0_iff_dvd)
    ultimately have "100 dvd y" by (rule dvd_trans)
    then show ?thesis by (simp add: mod_eq_0_iff_dvd)
  qed
  have b: "y mod 4 = 0" if "y mod 100 = 0"
  proof -
    have "(4::int) dvd 100" by simp
    moreover have "100 dvd y" using that by (simp add: mod_eq_0_iff_dvd)
    ultimately have "4 dvd y" by (rule dvd_trans)
    then show ?thesis by (simp add: mod_eq_0_iff_dvd)
  qed
  define p4 where "p4 \<longleftrightarrow> y mod 4 = 0"
  define p100 where "p100 \<longleftrightarrow> y mod 100 = 0"
  define p400 where "p400 \<longleftrightarrow> y mod 400 = 0"
  define a4 where "a4 = (y - 1) div 4"
  define a100 where "a100 = (y - 1) div 100"
  define a400 where "a400 = (y - 1) div 400"
  have d: "y div 4 = a4 + (if p4 then 1 else 0)" "y div 100 = a100 + (if p100 then 1 else 0)"
    "y div 400 = a400 + (if p400 then 1 else 0)"
    unfolding p4_def p100_def p400_def a4_def a100_def a400_def
    by (rule div_pred, simp)+
  have l: "is_leap y \<longleftrightarrow> p4 \<and> (\<not> p100 \<or> p400)"
    by (simp add: is_leap_def p4_def p100_def p400_def)
  have i: "p400 \<longrightarrow> p100" "p100 \<longrightarrow> p4"
    using a b by (simp_all add: p4_def p100_def p400_def)
  have "leap_days y = a4 + (if p4 then 1 else 0) - (a100 + (if p100 then 1 else 0)) + (a400 + (if p400 then 1 else 0))"
    unfolding leap_days_def d ..
  moreover have "leap_days (y - 1) = a4 - a100 + a400"
    unfolding leap_days_def a4_def a100_def a400_def ..
  ultimately show ?thesis
    using i unfolding l by (cases p4; cases p100; cases p400) simp_all
qed

lemma days_before_year_leap_days: "days_before_year y = 365 * (y - 1) + leap_days (y - 1)"
  by (simp add: days_before_year_def leap_days_def Let_def)

lemma mod7_late:
  assumes "7 dvd (c - k)"
  shows "(365 * (y - 1) + g + c + d + 6) mod 7 = ((d + k + y + g) mod 7 + 5) mod (7::int)"
proof -
  from assms obtain j where j: "c - k = 7 * j" by (auto simp: dvd_def)
  have "365 * (y - 1) + g + c + d + 6 = (d + k + y + g + 5) + 7 * (52 * y - 52 + j)"
    using j by (simp add: algebra_simps)
  then have "(365 * (y - 1) + g + c + d + 6) mod 7 = (d + k + y + g + 5) mod 7"
    by (simp only: mod_mult_self2)
  then show ?thesis by (simp add: mod_add_left_eq)
qed

lemma mod7_early:
  assumes "7 dvd (c + 1 - k)"
  shows "(365 * (y - 1) + g + c + d + 6) mod 7 = ((d + k + (y - 1) + g) mod 7 + 5) mod (7::int)"
proof -
  from assms obtain j where j: "c + 1 - k = 7 * j" by (auto simp: dvd_def)
  have "365 * (y - 1) + g + c + d + 6 = (d + k + (y - 1) + g + 5) + 7 * (52 * y - 52 + j)"
    using j by (simp add: algebra_simps)
  then have "(365 * (y - 1) + g + c + d + 6) mod 7 = (d + k + (y - 1) + g + 5) mod 7"
    by (simp only: mod_mult_self2)
  then show ?thesis by (simp add: mod_add_left_eq)
qed

lemma day_of_week_leap_days:
  "day_of_week y m d =
     (if m < 3 then ((d + (13 * (m + 12 + 1)) div 5 + (y - 1) + leap_days (y - 1)) mod 7 + 5) mod 7
      else ((d + (13 * (m + 1)) div 5 + y + leap_days y) mod 7 + 5) mod 7)"
proof -
  have r: "X + a - b + c = X + (a - b + c)" for X a b c :: int by simp
  show ?thesis
    unfolding day_of_week_def leap_days_def Let_def r
    by (cases "m < 3") (simp_all only: if_True if_False)
qed

lemma weekday_leap_days:
  "weekday y m d =
     (365 * (y - 1) + (leap_days (y - 1) + (if 2 < m \<and> is_leap y then 1 else 0))
        + DAYS_BEFORE_MONTH ! nat m + d + 6) mod 7"
  by (simp add: weekday_def ymd2ord_def days_before_year_leap_days days_before_month_def)

lemma early_dvd:
  "k \<in> {1, 2} \<Longrightarrow> 7 dvd (DAYS_BEFORE_MONTH ! nat k + 1 - (13 * (k + 12 + 1)) div 5)"
  by (elim insertE emptyE; simp add: DAYS_BEFORE_MONTH_def)

lemma late_dvd:
  "k \<in> {3, 4, 5, 6, 7, 8, 9, 10, 11, 12} \<Longrightarrow>
     7 dvd (DAYS_BEFORE_MONTH ! nat k - (13 * (k + 1)) div 5)"
  by (elim insertE emptyE; simp add: DAYS_BEFORE_MONTH_def)

lemma early_weekday:
  assumes "k \<in> {1, 2}" shows "weekday y k d = day_of_week y k d"
proof -
  have k: "k < 3" "\<not> 2 < k" using assms by auto
  define g where "g = leap_days (y - 1)"
  define c where "c = DAYS_BEFORE_MONTH ! nat k"
  define z where "z = (13 * (k + 12 + 1)) div 5"
  have w: "weekday y k d = (365 * (y - 1) + g + c + d + 6) mod 7"
    unfolding weekday_leap_days g_def c_def using k by (simp only: if_False simp_thms add_0_right)
  have dw: "day_of_week y k d = ((d + z + (y - 1) + g) mod 7 + 5) mod 7"
    unfolding day_of_week_leap_days g_def z_def using k by (simp only: if_True)
  have "7 dvd (c + 1 - z)" unfolding c_def z_def using assms by (rule early_dvd)
  then show ?thesis unfolding w dw by (rule mod7_early)
qed

lemma late_weekday:
  assumes "k \<in> {3, 4, 5, 6, 7, 8, 9, 10, 11, 12}" shows "weekday y k d = day_of_week y k d"
proof -
  have k: "\<not> k < 3" "2 < k" using assms by auto
  define g where "g = leap_days (y - 1) + (if is_leap y then 1 else 0)"
  define c where "c = DAYS_BEFORE_MONTH ! nat k"
  define z where "z = (13 * (k + 1)) div 5"
  have gy: "leap_days y = g" unfolding g_def by (rule leap_step)
  have w: "weekday y k d = (365 * (y - 1) + g + c + d + 6) mod 7"
    unfolding weekday_leap_days g_def c_def using k by (simp only: if_True simp_thms)
  have dw: "day_of_week y k d = ((d + z + y + g) mod 7 + 5) mod 7"
    unfolding day_of_week_leap_days gy z_def using k by (simp only: if_False)
  have "7 dvd (c - z)" unfolding c_def z_def using assms by (rule late_dvd)
  then show ?thesis unfolding w dw by (rule mod7_late)
qed

lemma weekday_day_of_week:
  assumes "1 \<le> m" "m \<le> 12"
  shows "weekday y m d = day_of_week y m d"
  using month_cases[OF assms] early_weekday[of m y d] late_weekday[of m y d] by blast

subsection \<open>Fields and the uniqueness of the match\<close>

lemma split_on_no_sep: "sep \<notin> set a \<Longrightarrow> split_on sep a = [a]"
  by (induction a) auto

lemma split_on_append:
  "sep \<notin> set a \<Longrightarrow> split_on sep (a @ sep # b) = a # split_on sep b"
  by (induction a) auto

lemma split_on_nonempty: "split_on sep s \<noteq> []"
  by (induction s) (auto split: list.splits)

lemma split_on_Cons:
  "split_on sep s = f # fs \<Longrightarrow>
     sep \<notin> set f \<and> (if fs = [] then s = f else \<exists>rest. s = f @ sep # rest \<and> split_on sep rest = fs)"
proof (induction s arbitrary: f fs)
  case Nil
  then show ?case by simp
next
  case (Cons c s)
  show ?case
  proof (cases "c = sep")
    case True
    with Cons.prems split_on_nonempty[of sep s] show ?thesis by auto
  next
    case False
    obtain g gs where g: "split_on sep s = g # gs"
      using split_on_nonempty[of sep s] by (cases "split_on sep s") auto
    with Cons.prems False have f: "f = c # g" "fs = gs" by auto
    from Cons.IH[OF g] f False show ?thesis by (auto split: if_splits)
  qed
qed

lemma split_on_three:
  "split_on sep s = [d, m, y] \<longleftrightarrow>
     s = d @ sep # m @ sep # y \<and> sep \<notin> set d \<and> sep \<notin> set m \<and> sep \<notin> set y"
proof
  assume a: "split_on sep s = [d, m, y]"
  from split_on_Cons[OF a] obtain r1 where 1: "sep \<notin> set d" "s = d @ sep # r1" "split_on sep r1 = [m, y]"
    by auto
  from split_on_Cons[OF 1(3)] obtain r2 where 2: "sep \<notin> set m" "r1 = m @ sep # r2" "split_on sep r2 = [y]"
    by auto
  from split_on_Cons[OF 2(3)] have 3: "sep \<notin> set y" "r2 = y" by auto
  from 1 2 3 show "s = d @ sep # m @ sep # y \<and> sep \<notin> set d \<and> sep \<notin> set m \<and> sep \<notin> set y"
    by simp
next
  assume "s = d @ sep # m @ sep # y \<and> sep \<notin> set d \<and> sep \<notin> set m \<and> sep \<notin> set y"
  then show "split_on sep s = [d, m, y]"
    by (simp add: split_on_append split_on_no_sep)
qed

lemma day_group_no_dash: "group_text day_alts d \<Longrightarrow> CHR ''-'' \<notin> set d"
  unfolding day_group_shapes by (auto simp: code_literals)

lemma month_group_no_dash: "group_text month_alts m \<Longrightarrow> CHR ''-'' \<notin> set m"
  unfolding month_group_shapes by (auto simp: code_literals)

lemma year_group_no_dash: "group_text year_alts y \<Longrightarrow> CHR ''-'' \<notin> set y"
  unfolding year_group_shapes by (auto simp: code_literals)

lemma year_group_length: "group_text year_alts y \<Longrightarrow> length y = 4"
  unfolding year_group_shapes by auto

lemma first_sep_unique:
  "x \<notin> set a \<Longrightarrow> x \<notin> set a' \<Longrightarrow> a @ x # b = a' @ x # b' \<Longrightarrow> a = a' \<and> b = b'"
proof (induction a arbitrary: a')
  case Nil
  then show ?case by (cases a') auto
next
  case (Cons c a)
  then show ?case by (cases a') auto
qed

lemma all_matches_unique:
  assumes "(d, m, y, r) \<in> set (all_matches s)" "(d', m', y', r') \<in> set (all_matches s)"
  shows "(d', m', y', r') = (d, m, y, r)"
proof -
  from assms(1) have 1: "s = d @ CHR ''-'' # m @ CHR ''-'' # y @ r"
    and g: "group_text day_alts d" "group_text month_alts m" "group_text year_alts y"
    by (simp_all add: all_matches_set)
  from assms(2) have 2: "s = d' @ CHR ''-'' # m' @ CHR ''-'' # y' @ r'"
    and g': "group_text day_alts d'" "group_text month_alts m'" "group_text year_alts y'"
    by (simp_all add: all_matches_set)
  have eq: "d @ CHR ''-'' # m @ CHR ''-'' # y @ r = d' @ CHR ''-'' # m' @ CHR ''-'' # y' @ r'"
    by (rule trans[OF 1[symmetric] 2])
  have dr: "d = d' \<and> m @ CHR ''-'' # y @ r = m' @ CHR ''-'' # y' @ r'"
    by (rule first_sep_unique[OF day_group_no_dash[OF g(1)] day_group_no_dash[OF g'(1)] eq])
  have d: "d = d'" and rest: "m @ CHR ''-'' # y @ r = m' @ CHR ''-'' # y' @ r'"
    using dr by (rule conjunct1, rule conjunct2)
  have mr: "m = m' \<and> y @ r = y' @ r'"
    by (rule first_sep_unique[OF month_group_no_dash[OF g(2)] month_group_no_dash[OF g'(2)] rest])
  have m: "m = m'" and rest2: "y @ r = y' @ r'"
    using mr by (rule conjunct1, rule conjunct2)
  from rest2 have "y = y'" "r = r'"
    using year_group_length[OF g(3)] year_group_length[OF g'(3)] by simp_all
  with d m show ?thesis by simp
qed

lemma regex_match_iff:
  "regex_match s = Some x \<longleftrightarrow> x \<in> set (all_matches s)"
proof (cases "all_matches s")
  case Nil
  then show ?thesis by (simp add: regex_match_def)
next
  case (Cons a as)
  have "x = a" if "x \<in> set (all_matches s)"
  proof -
    have "a \<in> set (all_matches s)" using Cons by simp
    with that all_matches_unique[of "fst a" "fst (snd a)" "fst (snd (snd a))" "snd (snd (snd a))" s
        "fst x" "fst (snd x)" "fst (snd (snd x))" "snd (snd (snd x))"]
    show ?thesis by simp
  qed
  with Cons show ?thesis by (auto simp: regex_match_def)
qed

lemma regex_match_fields:
  "regex_match s = Some (d, m, y, []) \<longleftrightarrow>
     split_on CHR ''-'' s = [d, m, y] \<and> group_text day_alts d \<and> group_text month_alts m
     \<and> group_text year_alts y"
  unfolding regex_match_iff all_matches_set split_on_three
  using day_group_no_dash month_group_no_dash year_group_no_dash by auto

subsection \<open>The extraction\<close>

lemma format_fields_Some:
  "format_fields s = Some (d, m, y) \<longleftrightarrow>
     split_on CHR ''-'' s = [d, m, y] \<and> day_text d \<and> month_text m \<and> year_text y"
  by (auto simp: format_fields_def split: list.splits if_splits)

lemma strptime_match:
  assumes "regex_match s = Some (d, m, y, [])"
  shows "format_fields s = Some (d, m, y)"
    and "strptime s =
           (if possible_date (number y) (number m) (number d)
            then Inr (number y, number m, number d) else Inl ValueError)"
proof -
  from assms have f: "split_on CHR ''-'' s = [d, m, y]"
    and g: "group_text day_alts d" "group_text month_alts m" "group_text year_alts y"
    by (simp_all add: regex_match_fields)
  from f g show "format_fields s = Some (d, m, y)"
    by (simp add: format_fields_Some day_group_iff month_group_iff year_group_iff)
  show "strptime s =
           (if possible_date (number y) (number m) (number d)
            then Inr (number y, number m, number d) else Inl ValueError)"
    using assms py_int_day[OF g(1)] py_int_month[OF g(2)] py_int_year[OF g(3)]
    by (simp add: strptime_def check_date_fields_possible)
qed

lemma possible_date_match:
  assumes "format_fields s = Some (d, m, y)"
    and "possible_date (number y) (number m) (number d)"
  shows "regex_match s = Some (d, m, y, [])"
proof -
  from assms(1) have f: "split_on CHR ''-'' s = [d, m, y]"
    and t: "day_text d" "month_text m" "year_text y"
    by (simp_all add: format_fields_Some)
  from assms(2) month_length_le[of "number y" "number m"]
  have "1 \<le> number d" "number d \<le> 31" "1 \<le> number m" "number m \<le> 12"
    by (simp_all add: possible_date_def)
  with t have "group_text day_alts d" "group_text month_alts m" "group_text year_alts y"
    by (simp_all add: day_group_iff month_group_iff year_group_iff)
  with f show ?thesis by (simp add: regex_match_fields)
qed

lemma strptime_spec:
  "strptime s =
     (case format_fields s of
        None \<Rightarrow> Inl ValueError
      | Some (d, m, y) \<Rightarrow>
          if possible_date (number y) (number m) (number d)
          then Inr (number y, number m, number d) else Inl ValueError)"
proof (cases "regex_match s")
  case None
  have "\<not> possible_date (number y) (number m) (number d)" if "format_fields s = Some (d, m, y)" for d m y
    using possible_date_match[OF that] None by auto
  then show ?thesis using None
    by (auto simp: strptime_def split: option.splits)
next
  case (Some x)
  obtain d m y r where x: "x = (d, m, y, r)" by (cases x)
  show ?thesis
  proof (cases "r = []")
    case True
    with Some x have "regex_match s = Some (d, m, y, [])" by simp
    from strptime_match[OF this] show ?thesis by simp
  next
    case False
    have "\<not> possible_date (number y') (number m') (number d')"
      if "format_fields s = Some (d', m', y')" for d' m' y'
      using possible_date_match[OF that] Some x False by auto
    then show ?thesis using Some x False
      by (auto simp: strptime_def split: option.splits)
  qed
qed

text \<open>
  Claim C8. \<open>get_date_features\<close> succeeds exactly when the string has the format,
  that is three fields separated by dashes that are texts of a day, a month and a year,
  and the three numbers are a possible calendar date; it then returns the year, the
  month, the day and the day of the week of that date (by Zeller's congruence, Monday
  being 0). In every other case it raises \<^verbatim>\<open>ValueError\<close>, the library's error
  for an invalid date. In particular 29-02-2024 is accepted, as a Thursday, and
  29-02-2023 is rejected.
\<close>

theorem get_date_features_iff:
  "get_date_features s =
     (case format_fields s of
        None \<Rightarrow> Inl ValueError
      | Some (d, m, y) \<Rightarrow>
          if possible_date (number y) (number m) (number d)
          then Inr \<lparr>Year = number y, Month = number m, Day = number d,
                     DayOfWeek = day_of_week (number y) (number m) (number d)\<rparr>
          else Inl ValueError)
   \<and> get_date_features ''29-02-2024'' = Inr \<lparr>Year = 2024, Month = 2, Day = 29, DayOfWeek = 3\<rparr>
   \<and> get_date_features ''29-02-2023'' = Inl ValueError"
proof -
  have w: "weekday y m d = day_of_week y m d" if "possible_date y m d" for y m d
    using that by (intro weekday_day_of_week) (simp_all add: possible_date_def)
  have 1: "get_date_features s =
     (case format_fields s of
        None \<Rightarrow> Inl ValueError
      | Some (d, m, y) \<Rightarrow>
          if possible_date (number y) (number m) (number d)
          then Inr \<lparr>Year = number y, Month = number m, Day = number d,
                     DayOfWeek = day_of_week (number y) (number m) (number d)\<rparr>
          else Inl ValueError)" for s
    unfolding get_date_features_def strptime_spec
    by (auto simp: w split: option.splits)
  have f24: "format_fields ''29-02-2024'' = Some (''29'', ''02'', ''2024'')"
    and f23: "format_fields ''29-02-2023'' = Some (''29'', ''02'', ''2023'')"
    by (simp_all add: format_fields_def day_text_def month_text_def year_text_def is_digit_def)
  have n: "number ''29'' = 29" "number ''02'' = 2" "number ''2024'' = 2024" "number ''2023'' = 2023"
    by (simp_all add: number_def decimal_def digit_value_def)
  have 2: "get_date_features ''29-02-2024'' = Inr \<lparr>Year = 2024, Month = 2, Day = 29, DayOfWeek = 3\<rparr>"
    unfolding 1 f24 by (simp add: n possible_date_def month_length_def leap_year_def day_of_week_def)
  have 3: "get_date_features ''29-02-2023'' = Inl ValueError"
    unfolding 1 f23 by (simp add: n possible_date_def month_length_def leap_year_def)
  from 1 2 3 show ?thesis by blast
qed

text \<open>
  The theorem at 31-04-2024, which has the format and is no possible date, at 2024-04-30,
  which has not the format, and at 1-1-2025, a Wednesday.
\<close>

theorem get_date_features_iff_witness:
  "format_fields ''31-04-2024'' = Some (''31'', ''04'', ''2024'')
   \<and> \<not> possible_date 2024 4 31
   \<and> get_date_features ''31-04-2024'' = Inl ValueError
   \<and> format_fields ''2024-04-30'' = None
   \<and> get_date_features ''2024-04-30'' = Inl ValueError
   \<and> get_date_features ''1-1-2025'' = Inr \<lparr>Year = 2025, Month = 1, Day = 1, DayOfWeek = 2\<rparr>"
  using get_date_features_iff[of "''31-04-2024''"] get_date_features_iff[of "''2024-04-30''"]
    get_date_features_iff[of "''1-1-2025''"]
  by (simp add: format_fields_def day_text_def month_text_def year_text_def is_digit_def
      number_def decimal_def digit_value_def possible_date_def month_length_def leap_year_def
      day_of_week_def)

section \<open>Properties of the prediction\<close>

text \<open>The definitions that evaluate a concrete date string.\<close>

lemmas date_eval = get_date_features_def strptime_def regex_match_def all_matches_def
  match_group_def List.map_filter_def day_alts_def month_alts_def year_alts_def dash_def
  in_class_def digit_def only_def py_int_def check_date_fields_def days_in_month_def
  is_leap_def DAYS_IN_MONTH_def weekday_def ymd2ord_def days_before_year_def
  days_before_month_def DAYS_BEFORE_MONTH_def

lemma sub_index_loop_total: "table_ok bps \<Longrightarrow> \<exists>i. sub_index_loop bps v = Inr i"
proof (induction bps)
  case Nil
  then show ?case by simp
next
  case (Cons a bps)
  then have "row_ok a" "table_ok bps" by (simp_all add: table_ok_def)
  with Cons.IH show ?case by (auto simp: sub_index_loop_Cons row_ok_def)
qed

lemma calculate_sub_index_total: "\<exists>i. calculate_sub_index p v = Inr i"
  unfolding calculate_sub_index_def by (rule sub_index_loop_total[OF breakpoints_ok])

lemma predict_loop_success:
  "\<forall>p \<in> set ps. \<exists>m. models p = Some m \<and> m f = Inr (conc p) \<Longrightarrow>
     predict_loop models f ps = Inr (map (\<lambda>p. (p, conc p)) ps)"
  by (induction ps) auto

lemma predict_loop_keys: "predict_loop models f ps = Inr predicted \<Longrightarrow> map fst predicted = ps"
  by (induction ps arbitrary: predicted) (auto split: option.splits sum.splits)

lemma predict_loop_rows:
  "predict_loop models f ps = Inr predicted \<Longrightarrow>
     list_all2 (\<lambda>p (q, v). q = p \<and> (\<exists>m. models p = Some m \<and> m f = Inr v)) ps predicted"
  by (induction ps arbitrary: predicted) (auto split: option.splits sum.splits)

lemma predict_loop_first_failure:
  "p \<in> set ps \<Longrightarrow>
   \<forall>q \<in> set (takeWhile (\<lambda>q. q \<noteq> p) ps). \<exists>m v. models q = Some m \<and> m f = Inr v \<Longrightarrow>
   models p = Some m \<Longrightarrow> m f = Inl e \<Longrightarrow> predict_loop models f ps = Inl e"
proof (induction ps)
  case Nil
  then show ?case by simp
next
  case (Cons a ps)
  show ?case
  proof (cases "a = p")
    case True
    then show ?thesis using Cons.prems(3,4) by simp
  next
    case False
    then have mem: "p \<in> set ps" using Cons.prems(1) by simp
    from False Cons.prems(2) obtain m' v where a: "models a = Some m'" "m' f = Inr v"
      by auto
    from False Cons.prems(2)
    have "\<forall>q \<in> set (takeWhile (\<lambda>q. q \<noteq> p) ps). \<exists>m v. models q = Some m \<and> m f = Inr v"
      by simp
    then have "predict_loop models f ps = Inl e"
      using Cons.IH mem Cons.prems(3,4) by blast
    with a show ?thesis by simp
  qed
qed

lemma predict_loop_failure:
  "p \<in> set ps \<Longrightarrow> models p = Some m \<Longrightarrow> m f = Inl e \<Longrightarrow> \<exists>e'. predict_loop models f ps = Inl e'"
  by (induction ps) (auto split: option.splits sum.splits)

lemma sub_indices_of_total: "\<exists>subs. sub_indices_of pvs = Inr subs"
proof (induction pvs)
  case Nil
  then show ?case by simp
next
  case (Cons pv pvs)
  obtain p v where pv: "pv = (p, v)" by (cases pv)
  from calculate_sub_index_total[of p v] Cons.IH pv show ?case by auto
qed

lemma sub_indices_of_keys: "sub_indices_of pvs = Inr subs \<Longrightarrow> map fst subs = map fst pvs"
  by (induction pvs arbitrary: subs) (auto split: sum.splits)

lemma sub_indices_of_values:
  "sub_indices_of pvs = Inr subs \<Longrightarrow> (p, v) \<in> set pvs \<Longrightarrow> calculate_sub_index p v = Inr i \<Longrightarrow> (p, i) \<in> set subs"
  by (induction pvs arbitrary: subs) (auto split: sum.splits)

lemma sub_indices_of_rows:
  "sub_indices_of pvs = Inr subs \<Longrightarrow>
     list_all2 (\<lambda>(p, v) (q, i). q = p \<and> calculate_sub_index p v = Inr i) pvs subs"
  by (induction pvs arbitrary: subs) (auto split: sum.splits)

lemma foldl_max: "foldl max (x::int) xs = Max (set (x # xs))"
  unfolding Max.set_eq_fold foldl_conv_fold by (simp add: max.commute)

lemma py_max_Max: "xs \<noteq> [] \<Longrightarrow> py_max xs = Inr (Max (set xs))"
  by (cases xs) (simp_all add: foldl_max del: set_simps)

lemma py_max_Inr: "py_max xs = Inr a \<Longrightarrow> a = Max (set xs) \<and> xs \<noteq> []"
  by (cases xs) (simp_all add: foldl_max del: set_simps)

lemma predict_aqi_Inr:
  assumes "predict_aqi models d = Inr (predicted, sub_indices, aqi, category)"
  shows "\<exists>f. get_date_features d = Inr f \<and> predict_loop models f pollutants = Inr predicted"
    and "sub_indices_of predicted = Inr sub_indices"
    and "aqi = Max (set (map snd sub_indices))"
    and "category = category_of aqi"
  using assms by (auto simp: predict_aqi_def split: sum.splits dest: py_max_Inr)

lemma predict_aqi_success:
  assumes "get_date_features d = Inr f"
    and "\<forall>p \<in> set pollutants. \<exists>m. models p = Some m \<and> m f = Inr (conc p)"
  shows "\<exists>subs aqi. predict_aqi models d = Inr (map (\<lambda>p. (p, conc p)) pollutants, subs, aqi, category_of aqi)
            \<and> sub_indices_of (map (\<lambda>p. (p, conc p)) pollutants) = Inr subs"
proof -
  let ?pr = "map (\<lambda>p. (p, conc p)) pollutants"
  have pl: "predict_loop models f pollutants = Inr ?pr"
    using assms(2) by (rule predict_loop_success)
  obtain subs where subs: "sub_indices_of ?pr = Inr subs"
    using sub_indices_of_total by blast
  have "map fst subs = pollutants"
    using sub_indices_of_keys[OF subs] by (simp add: comp_def)
  then have "map snd subs \<noteq> []" by (auto simp: pollutants_def)
  then have "py_max (map snd subs) = Inr (Max (set (map snd subs)))" by (rule py_max_Max)
  with assms(1) pl subs show ?thesis by (simp add: predict_aqi_def)
qed

text \<open>The date 15-03-2024 and the stub models, evaluated.\<close>

lemma date_example:
  "get_date_features ''15-03-2024'' = Inr \<lparr>Year = 2024, Month = 3, Day = 15, DayOfWeek = 4\<rparr>"
  by (simp add: date_eval)

lemma stub_sub_indices:
  "calculate_sub_index PM25 24 = Inr 40" "calculate_sub_index PM10 60 = Inr 60"
  "calculate_sub_index NO2 130 = Inr 150" "calculate_sub_index NH3 40 = Inr 10"
  "calculate_sub_index SO2 4 = Inr 5" "calculate_sub_index CO (13/32) = Inr 20"
  "calculate_sub_index O3 30 = Inr 30" "calculate_sub_index PM25 (-5) = Inr 0"
  by (simp_all add: calculate_sub_index_def float_eval)

lemma predict_aqi_stub:
  "predict_aqi stub_models ''15-03-2024'' =
       Inr ([(PM25, 24), (PM10, 60), (NO2, 130), (NH3, 40), (SO2, 4), (CO, 13/32), (O3, 30)],
            [(PM25, 40), (PM10, 60), (NO2, 150), (NH3, 10), (SO2, 5), (CO, 20), (O3, 30)],
            150, ''Moderate'')"
  by (simp add: predict_aqi_def date_example pollutants_def stub_models_def stub_model_def
      stub_sub_indices category_of_def)

lemma predict_aqi_negative:
  "predict_aqi negative_models ''15-03-2024'' =
       Inr ([(PM25, -5), (PM10, 60), (NO2, 130), (NH3, 40), (SO2, 4), (CO, 13/32), (O3, 30)],
            [(PM25, 0), (PM10, 60), (NO2, 150), (NH3, 10), (SO2, 5), (CO, 20), (O3, 30)],
            150, ''Moderate'')"
  by (simp add: predict_aqi_def date_example pollutants_def negative_models_def stub_models_def
      stub_model_def stub_sub_indices category_of_def)

lemma negative_models_PM25: "negative_models PM25 = Some (stub_model (-5))"
  by (simp add: negative_models_def)

lemma failing_models_NO2: "failing_models NO2 = Some (raising_model RuntimeError)"
  by (simp add: failing_models_def)

lemma predict_aqi_failing: "predict_aqi failing_models ''15-03-2024'' = Inl RuntimeError"
  by (simp add: predict_aqi_def date_example pollutants_def failing_models_def stub_models_def
      stub_model_def raising_model_def)

text \<open>
  Claim C1. Whenever \<open>predict_aqi\<close> returns, the concentrations it returns are those
  that the models of the seven pollutants return on the features of the date, the
  sub-indices are those that \<open>calculate_sub_index\<close> computes from these concentrations,
  one per pollutant, the AQI is the maximum of the sub-indices, and the category is the
  one that the ladder of the thresholds 50, 100, 200, 300 and 400 gives to that maximum;
  when the sub-indices are 40, 60, 150, 10, 5, 20 and 30 the AQI is 150 and the category
  Moderate. And \<open>predict_aqi\<close> does return when the date parses and every pollutant has a
  model that returns a concentration.
\<close>

theorem predict_aqi_max_category:
  "(\<forall>predicted sub_indices aqi category.
      predict_aqi models d = Inr (predicted, sub_indices, aqi, category) \<longrightarrow>
        (\<exists>f. get_date_features d = Inr f
            \<and> list_all2 (\<lambda>p (q, v). q = p \<and> (\<exists>m. models p = Some m \<and> m f = Inr v)) pollutants predicted)
        \<and> list_all2 (\<lambda>(p, v) (q, i). q = p \<and> calculate_sub_index p v = Inr i) predicted sub_indices
        \<and> map fst sub_indices = pollutants
        \<and> aqi = Max (set (map snd sub_indices))
        \<and> (\<forall>(p, i) \<in> set sub_indices. i \<le> aqi) \<and> (\<exists>p. (p, aqi) \<in> set sub_indices)
        \<and> category =
            (if aqi \<le> 50 then ''Good''
             else if aqi \<le> 100 then ''Satisfactory''
             else if aqi \<le> 200 then ''Moderate''
             else if aqi \<le> 300 then ''Poor''
             else if aqi \<le> 400 then ''Very Poor''
             else ''Severe'')
        \<and> (map snd sub_indices = [40, 60, 150, 10, 5, 20, 30] \<longrightarrow> aqi = 150 \<and> category = ''Moderate''))
   \<and> (\<forall>f. get_date_features d = Inr f
          \<and> (\<forall>p \<in> set pollutants. \<exists>m v. models p = Some m \<and> m f = Inr v)
        \<longrightarrow> (\<exists>r. predict_aqi models d = Inr r))"
proof (intro conjI allI impI)
  fix predicted sub_indices aqi category
  assume r: "predict_aqi models d = Inr (predicted, sub_indices, aqi, category)"
  note facts = predict_aqi_Inr[OF r]
  from facts(1) obtain f where f: "get_date_features d = Inr f"
    and pl: "predict_loop models f pollutants = Inr predicted" by blast
  from f predict_loop_rows[OF pl]
  show "\<exists>f. get_date_features d = Inr f
            \<and> list_all2 (\<lambda>p (q, v). q = p \<and> (\<exists>m. models p = Some m \<and> m f = Inr v)) pollutants predicted"
    by blast
  show "list_all2 (\<lambda>(p, v) (q, i). q = p \<and> calculate_sub_index p v = Inr i) predicted sub_indices"
    using facts(2) by (rule sub_indices_of_rows)
  have "map fst predicted = pollutants" using pl by (rule predict_loop_keys)
  then show keys: "map fst sub_indices = pollutants"
    using sub_indices_of_keys[OF facts(2)] by simp
  show m: "aqi = Max (set (map snd sub_indices))" by (rule facts(3))
  from keys have ne: "set (map snd sub_indices) \<noteq> {}" by (auto simp: pollutants_def)
  show "\<forall>(p, i) \<in> set sub_indices. i \<le> aqi"
  proof clarify
    fix p i
    assume "(p, i) \<in> set sub_indices"
    then have "i \<in> set (map snd sub_indices)" by force
    then show "i \<le> aqi" unfolding m by (intro Max_ge) simp_all
  qed
  have "aqi \<in> set (map snd sub_indices)"
    unfolding m using ne by (intro Max_in) simp_all
  then show "\<exists>p. (p, aqi) \<in> set sub_indices" by force
  show c: "category =
            (if aqi \<le> 50 then ''Good''
             else if aqi \<le> 100 then ''Satisfactory''
             else if aqi \<le> 200 then ''Moderate''
             else if aqi \<le> 300 then ''Poor''
             else if aqi \<le> 400 then ''Very Poor''
             else ''Severe'')"
    using facts(4) unfolding category_of_def .
  {
    assume "map snd sub_indices = [40, 60, 150, 10, 5, 20, 30]"
    with m have "aqi = 150" by simp
    then show "aqi = 150" .
    then show "category = ''Moderate''" using c by simp
  }
next
  fix f
  assume a: "get_date_features d = Inr f \<and> (\<forall>p \<in> set pollutants. \<exists>m v. models p = Some m \<and> m f = Inr v)"
  then have "\<forall>p \<in> set pollutants. \<exists>m. models p = Some m \<and> m f = Inr (case models p of Some m \<Rightarrow> (case m f of Inr v \<Rightarrow> v))"
    by fastforce
  with a predict_aqi_success[of d f models "\<lambda>p. case models p of Some m \<Rightarrow> (case m f of Inr v \<Rightarrow> v)"]
  show "\<exists>r. predict_aqi models d = Inr r" by blast
qed

text \<open>The theorem at the stub models and the date 15-03-2024.\<close>

theorem predict_aqi_max_category_witness:
  "get_date_features ''15-03-2024'' = Inr \<lparr>Year = 2024, Month = 3, Day = 15, DayOfWeek = 4\<rparr>
   \<and> predict_aqi stub_models ''15-03-2024'' =
       Inr ([(PM25, 24), (PM10, 60), (NO2, 130), (NH3, 40), (SO2, 4), (CO, 13/32), (O3, 30)],
            [(PM25, 40), (PM10, 60), (NO2, 150), (NH3, 10), (SO2, 5), (CO, 20), (O3, 30)],
            150, ''Moderate'')
   \<and> Max (set [40, 60, 150, 10, 5, 20, 30]) = (150::int)"
  using predict_aqi_max_category[of stub_models "''15-03-2024''"]
  by (simp add: date_example predict_aqi_stub)

text \<open>
  Claim C7 as stated fails: with a PM2.5 model that returns the negative concentration
  -5, \<open>predict_aqi\<close> does not fail; it returns a result, with sub-index 0 for PM2.5.
\<close>

theorem predict_aqi_accepts_negative:
  "negative_models PM25 = Some (stub_model (-5)) \<and> (-5::rat) < 0
   \<and> predict_aqi negative_models ''15-03-2024'' =
       Inr ([(PM25, -5), (PM10, 60), (NO2, 130), (NH3, 40), (SO2, 4), (CO, 13/32), (O3, 30)],
            [(PM25, 0), (PM10, 60), (NO2, 150), (NH3, 10), (SO2, 5), (CO, 20), (O3, 30)],
            150, ''Moderate'')"
  by (simp add: predict_aqi_negative negative_models_PM25)

text \<open>
  Claim C7, amended. When the date parses and the model of some pollutant raises,
  \<open>predict_aqi\<close> fails and returns no result; the error is the one of the first
  pollutant, in the order of the list, whose model raises. A negative concentration
  returned by a model is not rejected: \<open>predict_aqi\<close> returns a result in which that
  pollutant has sub-index 0.
\<close>

theorem predict_aqi_model_failure:
  "(\<forall>f p m e. get_date_features d = Inr f \<and> p \<in> set pollutants \<and> models p = Some m \<and> m f = Inl e
        \<longrightarrow> (\<exists>e'. predict_aqi models d = Inl e'))
   \<and> (\<forall>f p m e. get_date_features d = Inr f \<and> p \<in> set pollutants \<and> models p = Some m \<and> m f = Inl e
          \<and> (\<forall>q \<in> set (takeWhile (\<lambda>q. q \<noteq> p) pollutants). \<exists>m' v. models q = Some m' \<and> m' f = Inr v)
        \<longrightarrow> predict_aqi models d = Inl e)
   \<and> (\<forall>f conc p. get_date_features d = Inr f
          \<and> (\<forall>q \<in> set pollutants. \<exists>m. models q = Some m \<and> m f = Inr (conc q)) \<and> conc p < 0
        \<longrightarrow> (\<exists>sub_indices aqi.
               predict_aqi models d =
                 Inr (map (\<lambda>q. (q, conc q)) pollutants, sub_indices, aqi, category_of aqi)
               \<and> (p, 0) \<in> set sub_indices))"
proof (intro conjI allI impI)
  fix f p m e
  assume "get_date_features d = Inr f \<and> p \<in> set pollutants \<and> models p = Some m \<and> m f = Inl e"
  then show "\<exists>e'. predict_aqi models d = Inl e'"
    using predict_loop_failure[of p pollutants models m f e] by (auto simp: predict_aqi_def)
next
  fix f p m e
  assume "get_date_features d = Inr f \<and> p \<in> set pollutants \<and> models p = Some m \<and> m f = Inl e
          \<and> (\<forall>q \<in> set (takeWhile (\<lambda>q. q \<noteq> p) pollutants). \<exists>m' v. models q = Some m' \<and> m' f = Inr v)"
  then show "predict_aqi models d = Inl e"
    using predict_loop_first_failure[of p pollutants models f m e] by (simp add: predict_aqi_def)
next
  fix f conc p
  assume a: "get_date_features d = Inr f
          \<and> (\<forall>q \<in> set pollutants. \<exists>m. models q = Some m \<and> m f = Inr (conc q)) \<and> conc p < 0"
  then obtain subs aqi where
    r: "predict_aqi models d = Inr (map (\<lambda>q. (q, conc q)) pollutants, subs, aqi, category_of aqi)"
    and s: "sub_indices_of (map (\<lambda>q. (q, conc q)) pollutants) = Inr subs"
    using predict_aqi_success[of d f models conc] by blast
  have "p \<in> set pollutants" by (cases p) (simp_all add: pollutants_def)
  then have "(p, conc p) \<in> set (map (\<lambda>q. (q, conc q)) pollutants)" by auto
  moreover have "calculate_sub_index p (conc p) = Inr 0"
    using a first_row_low[of _ p] unfolding calculate_sub_index_def
    by (intro sub_index_loop_no_match) (fastforce simp: list_all_iff in_range_iff)
  ultimately have "(p, 0) \<in> set subs" using sub_indices_of_values[OF s] by blast
  with r show "\<exists>sub_indices aqi.
               predict_aqi models d =
                 Inr (map (\<lambda>q. (q, conc q)) pollutants, sub_indices, aqi, category_of aqi)
               \<and> (p, 0) \<in> set sub_indices" by blast
qed

text \<open>
  The theorem at the date 15-03-2024: with the NO2 model raising, and with the PM2.5
  model returning -5.
\<close>

theorem predict_aqi_model_failure_witness:
  "get_date_features ''15-03-2024'' = Inr \<lparr>Year = 2024, Month = 3, Day = 15, DayOfWeek = 4\<rparr>
   \<and> failing_models NO2 = Some (raising_model RuntimeError)
   \<and> raising_model RuntimeError \<lparr>Year = 2024, Month = 3, Day = 15, DayOfWeek = 4\<rparr> = Inl RuntimeError
   \<and> predict_aqi failing_models ''15-03-2024'' = Inl RuntimeError
   \<and> (\<exists>sub_indices aqi category. predict_aqi negative_models ''15-03-2024'' =
         Inr ([(PM25, -5), (PM10, 60), (NO2, 130), (NH3, 40), (SO2, 4), (CO, 13/32), (O3, 30)],
              sub_indices, aqi, category) \<and> (PM25, 0) \<in> set sub_indices)"
  using predict_aqi_model_failure[of "''15-03-2024''" failing_models]
    predict_aqi_model_failure[of "''15-03-2024''" negative_models]
  by (simp add: date_example predict_aqi_failing predict_aqi_negative failing_models_NO2
      raising_model_def)

end
